theory Spec2Isabelle
  imports Complex_Main "HOL-Library.Multiset"
begin

section \<open>Numbers, points and descriptors\<close>

text \<open>
  The program computes on JavaScript numbers. Input coordinates are finite numbers,
  modelled as reals; a computed number is a \<open>jsnum\<close>: a finite real, an infinity or
  NaN. The search for neighbours, the matching and the estimator are modelled with
  exact operations on the finite values. The two functions whose result is decided by
  the computed numbers themselves, \<open>invariantFeatures\<close> and \<open>arrangeTriplet\<close>, are
  modelled a second time with the rounding, overflow and underflow of every double
  operation made explicit (\<open>invariantFeatures_fl\<close>, \<open>arrangeTriplet_fl\<close>); under the
  exact rounding these are the functions of the first model.
\<close>

datatype jsnum = Fin real | PosInf | NegInf | NaN

type_synonym point = "real \<times> real"

type_synonym descriptor = "jsnum \<times> jsnum"

text \<open>Errors thrown by the program, as values.\<close>

datatype error =
    InputTypeSource       \<comment> \<open>TypeError "Input type for source not supported."\<close>
  | InputTypeTarget       \<comment> \<open>TypeError "Input type for target not supported."\<close>
  | InsufficientSource    \<comment> \<open>Error "Reference stars in source image are less than ..."\<close>
  | InsufficientTarget    \<comment> \<open>Error "Reference stars in target image are less than ..."\<close>
  | MatchExhaustion       \<comment> \<open>Error "List of matching triangles exhausted ..."\<close>
  | UndefinedAccess       \<comment> \<open>the TypeError of reading a property of \<open>undefined\<close>\<close>

text \<open>\<open>x / y\<close> on numbers whose divisor is a sum of squares (so never \<open>-0\<close>).\<close>

definition js_div :: "real \<Rightarrow> real \<Rightarrow> jsnum" where
  "js_div x y =
     (if y = 0 then (if x = 0 then NaN else if 0 < x then PosInf else NegInf)
      else Fin (x / y))"

text \<open>\<open>Math.sqrt\<close>.\<close>

fun js_sqrt :: "jsnum \<Rightarrow> jsnum" where
  "js_sqrt (Fin x) = (if x < 0 then NaN else Fin (sqrt x))"
| "js_sqrt PosInf = PosInf"
| "js_sqrt NegInf = NaN"
| "js_sqrt NaN = NaN"

text \<open>Strict equality \<open>===\<close> of two numbers: NaN equals nothing, itself included.\<close>

fun js_eq :: "jsnum \<Rightarrow> jsnum \<Rightarrow> bool" where
  "js_eq NaN _ = False"
| "js_eq _ NaN = False"
| "js_eq x y = (x = y)"

text \<open>
  The squared Euclidean distance of two points, as each side is written in the source,
  in exact arithmetic.
\<close>

definition sqdist :: "point \<Rightarrow> point \<Rightarrow> real" where
  "sqdist p q = (fst p - fst q)\<^sup>2 + (snd p - snd q)\<^sup>2"

subsection \<open>invariantFeatures\<close>

text \<open>
  \<open>sides.sort((a, b) => a - b)\<close> sorts three numbers ascending; the result is
  \<open>[sqrt(sides[2] / sides[1]), sqrt(sides[1] / sides[0])]\<close>. This is the function in
  exact arithmetic, as \<open>generateInvariants\<close> below uses it; \<open>invariantFeatures_fl\<close> is
  the function with every operation rounded.
\<close>

definition invariantFeatures :: "point \<Rightarrow> point \<Rightarrow> point \<Rightarrow> descriptor" where
  "invariantFeatures x1 x2 x3 =
     (let sides = sort [sqdist x1 x2, sqdist x2 x3, sqdist x1 x3]
      in (js_sqrt (js_div (sides ! 2) (sides ! 1)), js_sqrt (js_div (sides ! 1) (sides ! 0))))"

subsection \<open>arrangeTriplet\<close>

text \<open>
  \<open>sources[i]\<close> followed by a read of the element's coordinates: an index outside
  the array yields \<open>undefined\<close>, and reading \<open>undefined[0]\<close> throws.
\<close>

definition at_index :: "'a list \<Rightarrow> nat \<Rightarrow> error + 'a" where
  "at_index xs i = (if i < length xs then Inr (xs ! i) else Inl UndefinedAccess)"

text \<open>
  A JavaScript object whose keys are array indices lists its own properties in
  ascending numeric order, whatever the order of insertion: an association list kept
  sorted by key.
\<close>

type_synonym 'v intobj = "(nat \<times> 'v) list"

fun obj_set :: "nat \<Rightarrow> 'v \<Rightarrow> 'v intobj \<Rightarrow> 'v intobj" where
  "obj_set k v [] = [(k, v)]"
| "obj_set k v ((k', v') # kvs) =
     (if k < k' then (k, v) # (k', v') # kvs
      else if k = k' then (k, v) # kvs
      else (k', v') # obj_set k v kvs)"

text \<open>
  The helper \<open>mostCommon\<close>: \<open>count[item] = (count[item] || 0) + 1\<close> for each item, then
  \<open>Object.entries(count).sort((a, b) => b[1] - a[1])\<close>, a stable sort by descending count.
\<close>

definition mostCommon :: "nat list \<Rightarrow> (nat \<times> nat) list" where
  "mostCommon arr =
     (let count = fold (\<lambda>item count.
                    obj_set item ((case map_of count item of None \<Rightarrow> 0 | Some c \<Rightarrow> c) + 1) count)
                  arr []
      in sort_key (\<lambda>e. - int (snd e)) count)"

text \<open>
  \<open>parseInt\<close> of the entries array: the array is converted to the string
  \<open>"k1,c1,k2,c2,..."\<close>, whose leading integer is the first key; the empty array
  gives NaN (\<open>None\<close>).
\<close>

fun parseInt_entries :: "(nat \<times> nat) list \<Rightarrow> nat option" where
  "parseInt_entries [] = None"
| "parseInt_entries (e # es) = Some (fst e)"

text \<open>
  \<open>arrangeTriplet\<close> in exact arithmetic, as \<open>generateInvariants\<close> below uses it;
  \<open>arrangeTriplet_fl\<close> is the function with every operation rounded.
\<close>

definition arrangeTriplet ::
  "point list \<Rightarrow> nat \<times> nat \<times> nat \<Rightarrow> error + (nat option \<times> nat option \<times> nat option)" where
  "arrangeTriplet sources vertexIndices =
     (case vertexIndices of (ind1, ind2, ind3) \<Rightarrow>
      case at_index sources ind1 of Inl e \<Rightarrow> Inl e | Inr x1 \<Rightarrow>
      case at_index sources ind2 of Inl e \<Rightarrow> Inl e | Inr x2 \<Rightarrow>
      case at_index sources ind3 of Inl e \<Rightarrow> Inl e | Inr x3 \<Rightarrow>
        let sideInd = [[ind1, ind2], [ind2, ind3], [ind3, ind1]];
            sideLengths = [sqrt (sqdist x1 x2), sqrt (sqdist x2 x3), sqrt (sqdist x3 x1)];
            sortedIndices = map snd (sort_key fst (zip sideLengths [0, 1, 2]));
            l1Ind = sortedIndices ! 0;
            l2Ind = sortedIndices ! 1;
            l3Ind = sortedIndices ! 2;
            a = mostCommon (sideInd ! l1Ind @ sideInd ! l2Ind);
            b = mostCommon (sideInd ! l2Ind @ sideInd ! l3Ind);
            c = mostCommon (sideInd ! l3Ind @ sideInd ! l1Ind)
        in Inr (parseInt_entries a, parseInt_entries b, parseInt_entries c))"

text \<open>
  The canonical order of the source's documentation: \<open>a\<close> is the vertex defined by
  \<open>L1\<close> and \<open>L2\<close>, \<open>b\<close> by \<open>L2\<close> and \<open>L3\<close>, \<open>c\<close> by \<open>L3\<close> and \<open>L1\<close>, for the sides
  \<open>L1 < L2 < L3\<close>. For the triangle \<open>(u, v, w)\<close> with sides \<open>p = |uv|\<close>,
  \<open>q = |vw|\<close>, \<open>r = |wu|\<close>: \<open>a\<close> lies opposite the longest side, \<open>b\<close> opposite the
  shortest and \<open>c\<close> opposite the middle one.
\<close>

definition canonicalTriangle ::
  "nat \<Rightarrow> nat \<Rightarrow> nat \<Rightarrow> real \<Rightarrow> real \<Rightarrow> real \<Rightarrow> nat \<times> nat \<times> nat" where
  "canonicalTriangle u v w p q r =
    ((if q < p \<and> r < p then w else if p < q \<and> r < q then u else v),
     (if p < q \<and> p < r then w else if q < p \<and> q < r then u else v),
     (if (q < p \<and> p < r) \<or> (r < p \<and> p < q) then w
      else if (p < q \<and> q < r) \<or> (r < q \<and> q < p) then u else v))"

subsection \<open>Double arithmetic\<close>

text \<open>
  A double operation is the exact operation on the reals followed by a rounding
  \<open>rnd\<close>, which yields the nearest double or, on overflow, an infinity. The rounding
  is a parameter of the functions below: \<open>Fin\<close> is exact arithmetic, \<open>round64\<close> is
  IEEE 754 binary64 with round to nearest, ties to even. Signed zeros are not
  distinguished: they matter only to a division by \<open>-0\<close>, and every divisor here is
  a sum of squares.
\<close>

text \<open>The nearest integer, a tie going to the even one.\<close>

definition round_even :: "real \<Rightarrow> int" where
  "round_even y =
     (let f = \<lfloor>y\<rfloor>; d = y - of_int f
      in if d < 1 / 2 then f else if 1 / 2 < d then f + 1 else if even f then f else f + 1)"

text \<open>
  The exponent of the unit in the last place of the doubles around \<open>x\<close>: 52 below
  the binary exponent of \<open>x\<close>, which stays at \<open>-1022\<close> for the subnormal numbers.
\<close>

definition binade :: "real \<Rightarrow> int" where
  "binade x = max \<lfloor>log 2 \<bar>x\<bar>\<rfloor> (- 1022) - 52"

text \<open>
  Rounding to binary64: the nearest multiple of the unit in the last place; a result
  of magnitude \<open>2 ^ 1024\<close> or more overflows to the infinity of the sign of \<open>x\<close>, and a
  real of at most half the smallest subnormal number underflows to zero.
\<close>

definition round64 :: "real \<Rightarrow> jsnum" where
  "round64 x =
     (if x = 0 then Fin 0
      else let q = 2 powi binade x;
               y = of_int (round_even (x / q)) * q
           in if 2 ^ 1024 \<le> \<bar>y\<bar> then (if 0 < x then PosInf else NegInf) else Fin y)"

text \<open>Unary minus, and two tests on a number.\<close>

fun fl_neg :: "jsnum \<Rightarrow> jsnum" where
  "fl_neg (Fin x) = Fin (- x)"
| "fl_neg PosInf = NegInf"
| "fl_neg NegInf = PosInf"
| "fl_neg NaN = NaN"

fun nonneg :: "jsnum \<Rightarrow> bool" where
  "nonneg (Fin y) = (0 \<le> y)"
| "nonneg PosInf = True"
| "nonneg NegInf = False"
| "nonneg NaN = False"

fun at_least_one :: "jsnum \<Rightarrow> bool" where
  "at_least_one (Fin y) = (1 \<le> y)"
| "at_least_one PosInf = True"
| "at_least_one NegInf = False"
| "at_least_one NaN = False"

text \<open>
  What the theorems below use of a rounding: zero is exact, a non-negative real is
  not rounded below zero nor a real from 1 on below 1, and rounding commutes with
  negation. None of these results is NaN.
\<close>

definition rounding :: "(real \<Rightarrow> jsnum) \<Rightarrow> bool" where
  "rounding rnd \<longleftrightarrow>
     rnd 0 = Fin 0
   \<and> (\<forall>x. 0 \<le> x \<longrightarrow> nonneg (rnd x))
   \<and> (\<forall>x. 1 \<le> x \<longrightarrow> at_least_one (rnd x))
   \<and> (\<forall>x. rnd (- x) = fl_neg (rnd x))"

text \<open>
  \<open>x ** 2\<close>, taken as the rounded product \<open>x * x\<close>; \<open>x + y\<close>; \<open>x / y\<close>;
  \<open>Math.sqrt(x)\<close>; each with the special values of IEEE 754.
\<close>

fun fl_sq :: "(real \<Rightarrow> jsnum) \<Rightarrow> jsnum \<Rightarrow> jsnum" where
  "fl_sq rnd (Fin x) = rnd (x * x)"
| "fl_sq rnd PosInf = PosInf"
| "fl_sq rnd NegInf = PosInf"
| "fl_sq rnd NaN = NaN"

fun fl_add :: "(real \<Rightarrow> jsnum) \<Rightarrow> jsnum \<Rightarrow> jsnum \<Rightarrow> jsnum" where
  "fl_add rnd (Fin x) (Fin y) = rnd (x + y)"
| "fl_add rnd NaN b = NaN"
| "fl_add rnd a NaN = NaN"
| "fl_add rnd PosInf NegInf = NaN"
| "fl_add rnd NegInf PosInf = NaN"
| "fl_add rnd PosInf b = PosInf"
| "fl_add rnd a PosInf = PosInf"
| "fl_add rnd NegInf b = NegInf"
| "fl_add rnd a NegInf = NegInf"

fun fl_div :: "(real \<Rightarrow> jsnum) \<Rightarrow> jsnum \<Rightarrow> jsnum \<Rightarrow> jsnum" where
  "fl_div rnd (Fin x) (Fin y) =
     (if y = 0 then (if x = 0 then NaN else if 0 < x then PosInf else NegInf)
      else rnd (x / y))"
| "fl_div rnd NaN b = NaN"
| "fl_div rnd a NaN = NaN"
| "fl_div rnd (Fin x) PosInf = Fin 0"
| "fl_div rnd (Fin x) NegInf = Fin 0"
| "fl_div rnd PosInf (Fin y) = (if y < 0 then NegInf else PosInf)"
| "fl_div rnd NegInf (Fin y) = (if y < 0 then PosInf else NegInf)"
| "fl_div rnd a b = NaN"

fun fl_sqrt :: "(real \<Rightarrow> jsnum) \<Rightarrow> jsnum \<Rightarrow> jsnum" where
  "fl_sqrt rnd (Fin x) = (if x < 0 then NaN else rnd (sqrt x))"
| "fl_sqrt rnd PosInf = PosInf"
| "fl_sqrt rnd NegInf = NaN"
| "fl_sqrt rnd NaN = NaN"

text \<open>
  The comparator \<open>(a, b) => a - b\<close> of the two sorts is negative exactly when \<open>a\<close> is
  below \<open>b\<close>: the difference of two different doubles is never rounded to zero, and
  \<open>Infinity - Infinity\<close> is NaN, which \<open>sort\<close> takes as 0. \<open>Array.prototype.sort\<close> is
  stable: an insertion sort that puts an element before the first one it is not
  above.
\<close>

fun js_less :: "jsnum \<Rightarrow> jsnum \<Rightarrow> bool" where
  "js_less (Fin x) (Fin y) = (x < y)"
| "js_less NegInf (Fin y) = True"
| "js_less NegInf PosInf = True"
| "js_less (Fin x) PosInf = True"
| "js_less a b = False"

fun js_insert :: "('a \<Rightarrow> jsnum) \<Rightarrow> 'a \<Rightarrow> 'a list \<Rightarrow> 'a list" where
  "js_insert key x [] = [x]"
| "js_insert key x (y # ys) =
     (if js_less (key y) (key x) then y # js_insert key x ys else x # y # ys)"

definition js_sort_by :: "('a \<Rightarrow> jsnum) \<Rightarrow> 'a list \<Rightarrow> 'a list" where
  "js_sort_by key xs = foldr (js_insert key) xs []"

text \<open>\<open>(p[0] - q[0]) ** 2 + (p[1] - q[1]) ** 2\<close>, each operation rounded.\<close>

definition sqdist_fl :: "(real \<Rightarrow> jsnum) \<Rightarrow> point \<Rightarrow> point \<Rightarrow> jsnum" where
  "sqdist_fl rnd p q =
     fl_add rnd (fl_sq rnd (rnd (fst p - fst q))) (fl_sq rnd (rnd (snd p - snd q)))"

text \<open>\<open>invariantFeatures\<close> in double arithmetic.\<close>

definition invariantFeatures_fl :: "(real \<Rightarrow> jsnum) \<Rightarrow> point \<Rightarrow> point \<Rightarrow> point \<Rightarrow> descriptor" where
  "invariantFeatures_fl rnd x1 x2 x3 =
     (let sides = js_sort_by id [sqdist_fl rnd x1 x2, sqdist_fl rnd x2 x3, sqdist_fl rnd x1 x3]
      in (fl_sqrt rnd (fl_div rnd (sides ! 2) (sides ! 1)),
          fl_sqrt rnd (fl_div rnd (sides ! 1) (sides ! 0))))"

text \<open>
  \<open>arrangeTriplet\<close> in double arithmetic: the side lengths are \<open>Math.sqrt\<close> of the
  computed squared distances, the third one taken from \<open>x3\<close> to \<open>x1\<close>.
\<close>

definition sideLength_fl :: "(real \<Rightarrow> jsnum) \<Rightarrow> point \<Rightarrow> point \<Rightarrow> jsnum" where
  "sideLength_fl rnd p q = fl_sqrt rnd (sqdist_fl rnd p q)"

definition arrangeTriplet_fl ::
  "(real \<Rightarrow> jsnum) \<Rightarrow> point list \<Rightarrow> nat \<times> nat \<times> nat
     \<Rightarrow> error + (nat option \<times> nat option \<times> nat option)" where
  "arrangeTriplet_fl rnd sources vertexIndices =
     (case vertexIndices of (ind1, ind2, ind3) \<Rightarrow>
      case at_index sources ind1 of Inl e \<Rightarrow> Inl e | Inr x1 \<Rightarrow>
      case at_index sources ind2 of Inl e \<Rightarrow> Inl e | Inr x2 \<Rightarrow>
      case at_index sources ind3 of Inl e \<Rightarrow> Inl e | Inr x3 \<Rightarrow>
        let sideInd = [[ind1, ind2], [ind2, ind3], [ind3, ind1]];
            sideLengths = [sideLength_fl rnd x1 x2, sideLength_fl rnd x2 x3,
                           sideLength_fl rnd x3 x1];
            sortedIndices = map snd (js_sort_by fst (zip sideLengths [0, 1, 2]));
            l1Ind = sortedIndices ! 0;
            l2Ind = sortedIndices ! 1;
            l3Ind = sortedIndices ! 2;
            a = mostCommon (sideInd ! l1Ind @ sideInd ! l2Ind);
            b = mostCommon (sideInd ! l2Ind @ sideInd ! l3Ind);
            c = mostCommon (sideInd ! l3Ind @ sideInd ! l1Ind)
        in Inr (parseInt_entries a, parseInt_entries b, parseInt_entries c))"

subsection \<open>generateInvariants\<close>

text \<open>Mapping a function that may throw over a list stops at the first error.\<close>

fun emap :: "('a \<Rightarrow> error + 'b) \<Rightarrow> 'a list \<Rightarrow> error + 'b list" where
  "emap f [] = Inr []"
| "emap f (x # xs) =
     (case f x of Inl e \<Rightarrow> Inl e
      | Inr y \<Rightarrow> (case emap f xs of Inl e \<Rightarrow> Inl e | Inr ys \<Rightarrow> Inr (y # ys)))"

text \<open>The three nested loops over \<open>i < j < k\<close> that list the triangles of the neighbours.\<close>

definition combinations :: "nat list \<Rightarrow> (nat \<times> nat \<times> nat) list" where
  "combinations indx =
     concat (map (\<lambda>i.
       concat (map (\<lambda>j.
         map (\<lambda>k. (indx ! i, indx ! j, indx ! k)) [j + 1 ..< length indx])
       [i + 1 ..< length indx - 1]))
     [0 ..< length indx - 2])"

text \<open>
  \<open>invariantFeatures(...triplet.map((i) => sources[i]))\<close>: a NaN or out-of-range
  index gives \<open>undefined\<close>, whose coordinates \<open>invariantFeatures\<close> cannot read.
\<close>

definition tripletFeatures ::
  "point list \<Rightarrow> nat option \<times> nat option \<times> nat option \<Rightarrow> error + (descriptor \<times> nat \<times> nat \<times> nat)" where
  "tripletFeatures sources triplet =
     (case triplet of
        (Some a, Some b, Some c) \<Rightarrow>
          (case at_index sources a of Inl e \<Rightarrow> Inl e | Inr x1 \<Rightarrow>
           case at_index sources b of Inl e \<Rightarrow> Inl e | Inr x2 \<Rightarrow>
           case at_index sources c of Inl e \<Rightarrow> Inl e | Inr x3 \<Rightarrow>
             Inr (invariantFeatures x1 x2 x3, (a, b, c)))
      | _ \<Rightarrow> Inl UndefinedAccess)"

definition NUM_NEAREST_NEIGHBORS :: nat where
  "NUM_NEAREST_NEIGHBORS = 5"

text \<open>
  The body of the loop over the anchor points. \<open>knn\<close> is the k-nearest query of the
  external spatial index: \<open>knn sources q k\<close> stands for
  \<open>createKDTree(sources).knn(q, k)\<close>.
\<close>

definition anchorTriangles ::
  "(point list \<Rightarrow> point \<Rightarrow> nat \<Rightarrow> nat list) \<Rightarrow> point list \<Rightarrow> point
     \<Rightarrow> error + (descriptor \<times> nat \<times> nat \<times> nat) list" where
  "anchorTriangles knn sources asrc =
     (let indx = knn sources asrc (min (length sources) NUM_NEAREST_NEIGHBORS)
      in case emap (arrangeTriplet sources) (combinations indx) of
           Inl e \<Rightarrow> Inl e
         | Inr allAsterismTriang \<Rightarrow> emap (tripletFeatures sources) allAsterismTriang)"

text \<open>All candidate triangles with their descriptors, before duplicates are removed.\<close>

definition candidateTriangles ::
  "(point list \<Rightarrow> point \<Rightarrow> nat \<Rightarrow> nat list) \<Rightarrow> point list
     \<Rightarrow> error + (descriptor \<times> nat \<times> nat \<times> nat) list" where
  "candidateTriangles knn sources =
     (case emap (anchorTriangles knn sources) sources of
        Inl e \<Rightarrow> Inl e
      | Inr per_anchor \<Rightarrow> Inr (concat per_anchor))"

text \<open>\<open>item[0] === elem[0] && item[1] === elem[1]\<close>\<close>

definition desc_eq :: "descriptor \<Rightarrow> descriptor \<Rightarrow> bool" where
  "desc_eq item elem \<longleftrightarrow> js_eq (fst item) (fst elem) \<and> js_eq (snd item) (snd elem)"

text \<open>The positions kept: those with no strictly equal descriptor at a later position.\<close>

definition uniqInd :: "descriptor list \<Rightarrow> nat list" where
  "uniqInd invs =
     filter (\<lambda>pos. \<not> list_ex (\<lambda>item. desc_eq item (invs ! pos)) (drop (pos + 1) invs))
       [0 ..< length invs]"

definition generateInvariants ::
  "(point list \<Rightarrow> point \<Rightarrow> nat \<Rightarrow> nat list) \<Rightarrow> point list
     \<Rightarrow> error + (descriptor list \<times> (nat \<times> nat \<times> nat) list)" where
  "generateInvariants knn sources =
     (case candidateTriangles knn sources of
        Inl e \<Rightarrow> Inl e
      | Inr cands \<Rightarrow>
          let invs = map fst cands;
              triangVrtx = map snd cands;
              uniq = uniqInd invs
          in Inr (map (\<lambda>i. invs ! i) uniq, map (\<lambda>i. triangVrtx ! i) uniq))"

text \<open>A descriptor with a NaN component.\<close>

definition has_nan :: "descriptor \<Rightarrow> bool" where
  "has_nan d \<longleftrightarrow> fst d = NaN \<or> snd d = NaN"

text \<open>
  A brute-force spatial index that meets the contract of the k-nearest query
  (the \<open>k\<close> closest indices, closest first, ties by index); it stands in for the external
  k-d tree where the model is run on concrete points.
\<close>

definition knn_ref :: "point list \<Rightarrow> point \<Rightarrow> nat \<Rightarrow> nat list" where
  "knn_ref pts q k = take k (sort_key (\<lambda>i. sqdist (pts ! i) q) [0 ..< length pts])"

text \<open>
  A brute-force radius query on descriptors (the indices within Euclidean distance
  \<open>r\<close> of the query, in index order), standing in for the external k-d tree where the
  model is run on concrete points.
\<close>

definition within_radius :: "real \<Rightarrow> descriptor \<Rightarrow> descriptor \<Rightarrow> bool" where
  "within_radius r d q =
     (case (d, q) of
        ((Fin a, Fin b), (Fin c, Fin e)) \<Rightarrow> (a - c)\<^sup>2 + (b - e)\<^sup>2 \<le> r\<^sup>2
      | _ \<Rightarrow> False)"

definition rnn_ref :: "descriptor list \<Rightarrow> descriptor \<Rightarrow> real \<Rightarrow> nat list" where
  "rnn_ref descs q r = filter (\<lambda>i. within_radius r (descs ! i) q) [0 ..< length descs]"

section \<open>The transform model and the robust estimator\<close>

text \<open>
  The services the program takes from outside, as parameters:
  \<^item> \<open>kdtree_knn pts q k\<close> is \<open>createKDTree(pts).knn(q, k)\<close>;
  \<^item> \<open>kdtree_rnn descs q r\<close> lists the indices that \<open>createKDTree(descs).rnn(q, r, visit)\<close>
    passes to \<open>visit\<close>, in the order of the calls;
  \<^item> \<open>nudged_estimate domain range\<close> is
    \<open>nudged.estimate({estimator: "TSR", domain, range})\<close>;
  \<^item> \<open>nudged_residual t p q\<close> is the entry of \<open>nudged.analysis.residuals(t, domain, range)\<close>
    for the pair \<open>(p, q)\<close>, a distance;
  \<^item> \<open>math_random k\<close> is the value of the \<open>k\<close>-th call of \<open>Math.random()\<close>.
\<close>

record 't externals =
  kdtree_knn :: "point list \<Rightarrow> point \<Rightarrow> nat \<Rightarrow> nat list"
  kdtree_rnn :: "descriptor list \<Rightarrow> descriptor \<Rightarrow> real \<Rightarrow> nat list"
  nudged_estimate :: "point list \<Rightarrow> point list \<Rightarrow> 't"
  nudged_residual :: "'t \<Rightarrow> point \<Rightarrow> point \<Rightarrow> real"
  math_random :: "nat \<Rightarrow> real"

text \<open>
  A candidate correspondence: the three \<open>[sourceIndex, targetIndex]\<close> pairs of two
  matched triangles.
\<close>

type_synonym candidate = "(nat \<times> nat) \<times> (nat \<times> nat) \<times> (nat \<times> nat)"

text \<open>\<open>data.flat()\<close>\<close>

definition flat :: "candidate list \<Rightarrow> (nat \<times> nat) list" where
  "flat data = concat (map (\<lambda>(p, q, r). [p, q, r]) data)"

text \<open>
  What \<open>ransac\<close> asks of its \<open>model\<close> argument: the methods \<open>fit\<close> and \<open>getError\<close>, each
  of which may throw.
\<close>

record ('c, 't) model =
  fit :: "'c list \<Rightarrow> error + 't"
  getError :: "'c list \<Rightarrow> 't \<Rightarrow> error + real list"

subsection \<open>MatchTransform\<close>

text \<open>
  \<open>nudged.point.fromArray(this.source[s])\<close> reads the coordinates of the point, so
  an index outside the point set throws.
\<close>

definition MatchTransform_fit ::
  "'t externals \<Rightarrow> point list \<Rightarrow> point list \<Rightarrow> candidate list \<Rightarrow> error + 't" where
  "MatchTransform_fit ext source target data =
     (case emap (\<lambda>(s, t). at_index source s) (flat data) of
        Inl e \<Rightarrow> Inl e
      | Inr sourcePoints \<Rightarrow>
     (case emap (\<lambda>(s, t). at_index target t) (flat data) of
        Inl e \<Rightarrow> Inl e
      | Inr targetPoints \<Rightarrow> Inr (nudged_estimate ext sourcePoints targetPoints)))"

text \<open>The error of one triangle: \<open>Math.max(...r)\<close> over the residuals of its three vertices.\<close>

definition triangleError ::
  "'t externals \<Rightarrow> point list \<Rightarrow> point list \<Rightarrow> 't \<Rightarrow> candidate \<Rightarrow> error + real" where
  "triangleError ext source target approxT triangle =
     (case triangle of ((s1, t1), (s2, t2), (s3, t3)) \<Rightarrow>
      case at_index source s1 of Inl e \<Rightarrow> Inl e | Inr p1 \<Rightarrow>
      case at_index source s2 of Inl e \<Rightarrow> Inl e | Inr p2 \<Rightarrow>
      case at_index source s3 of Inl e \<Rightarrow> Inl e | Inr p3 \<Rightarrow>
      case at_index target t1 of Inl e \<Rightarrow> Inl e | Inr q1 \<Rightarrow>
      case at_index target t2 of Inl e \<Rightarrow> Inl e | Inr q2 \<Rightarrow>
      case at_index target t3 of Inl e \<Rightarrow> Inl e | Inr q3 \<Rightarrow>
        Inr (max (nudged_residual ext approxT p1 q1)
              (max (nudged_residual ext approxT p2 q2) (nudged_residual ext approxT p3 q3))))"

definition MatchTransform_getError ::
  "'t externals \<Rightarrow> point list \<Rightarrow> point list \<Rightarrow> candidate list \<Rightarrow> 't \<Rightarrow> error + real list" where
  "MatchTransform_getError ext source target data approxT =
     emap (triangleError ext source target approxT) data"

definition MatchTransform ::
  "'t externals \<Rightarrow> point list \<Rightarrow> point list \<Rightarrow> (candidate, 't) model" where
  "MatchTransform ext source target =
     \<lparr> fit = MatchTransform_fit ext source target,
       getError = MatchTransform_getError ext source target \<rparr>"

subsection \<open>ransac\<close>

text \<open>
  The Fisher-Yates loop \<open>for (i = allIdxs.length - 1; i > 0; i--)\<close>, with
  \<open>j = Math.floor(Math.random() * (i + 1))\<close> and the swap of the entries \<open>i\<close> and \<open>j\<close>;
  \<open>draw\<close> counts the calls of \<open>Math.random()\<close> made so far.
\<close>

fun shuffle_from :: "(nat \<Rightarrow> real) \<Rightarrow> nat \<Rightarrow> nat \<Rightarrow> nat list \<Rightarrow> nat list" where
  "shuffle_from rand draw 0 allIdxs = allIdxs"
| "shuffle_from rand draw (Suc i) allIdxs =
     (let j = nat \<lfloor>rand draw * (real (Suc i) + 1)\<rfloor>
      in shuffle_from rand (Suc draw) i (allIdxs[Suc i := allIdxs ! j, j := allIdxs ! Suc i]))"

definition shuffle :: "(nat \<Rightarrow> real) \<Rightarrow> nat \<Rightarrow> nat list" where
  "shuffle rand nData = shuffle_from rand 0 (nData - 1) [0 ..< nData]"

text \<open>The positions of \<open>testErr\<close> below the threshold: \<open>(_, i) => testErr[i] < thresh\<close>.\<close>

definition below :: "real list \<Rightarrow> real \<Rightarrow> nat \<Rightarrow> bool" where
  "below testErr thresh i \<longleftrightarrow> i < length testErr \<and> testErr ! i < thresh"

text \<open>
  One pass of the sampling loop, for the position \<open>iterI\<close>: \<open>Some goodFit\<close> when the
  hypothesis is accepted (the \<open>break\<close>), \<open>None\<close> when it is not.
\<close>

definition ransac_try ::
  "('c, 't) model \<Rightarrow> 'c list \<Rightarrow> real \<Rightarrow> nat \<Rightarrow> nat list \<Rightarrow> nat \<Rightarrow> error + 't option" where
  "ransac_try model data thresh minMatches allIdxs iterI =
     (let maybeIdxs = take 1 (drop iterI allIdxs);
          testIdxs = take iterI allIdxs @ drop (iterI + 1) allIdxs;
          maybeInliers = map (\<lambda>i. data ! i) maybeIdxs;
          testPoints = map (\<lambda>i. data ! i) testIdxs
      in case fit model maybeInliers of Inl e \<Rightarrow> Inl e | Inr maybeModel \<Rightarrow>
         case getError model testPoints maybeModel of Inl e \<Rightarrow> Inl e | Inr testErr \<Rightarrow>
           let alsoIdxs = map (\<lambda>i. testIdxs ! i)
                            (filter (below testErr thresh) [0 ..< length testIdxs]);
               alsoInliers = map (\<lambda>i. data ! i) alsoIdxs
           in if minMatches \<le> length alsoInliers
              then (case fit model (maybeInliers @ alsoInliers) of
                      Inl e \<Rightarrow> Inl e
                    | Inr goodFit \<Rightarrow> Inr (Some goodFit))
              else Inr None)"

text \<open>The loop \<open>for (iterI = 0; iterI < nData; iterI++)\<close>; \<open>None\<close> is \<open>goodFit === null\<close>.\<close>

function ransac_search ::
  "('c, 't) model \<Rightarrow> 'c list \<Rightarrow> real \<Rightarrow> nat \<Rightarrow> nat list \<Rightarrow> nat \<Rightarrow> error + 't option" where
  "ransac_search model data thresh minMatches allIdxs iterI =
     (if iterI < length data
      then (case ransac_try model data thresh minMatches allIdxs iterI of
              Inl e \<Rightarrow> Inl e
            | Inr (Some goodFit) \<Rightarrow> Inr (Some goodFit)
            | Inr None \<Rightarrow> ransac_search model data thresh minMatches allIdxs (iterI + 1))
      else Inr None)"
  by pat_completeness auto
termination
  by (relation "measure (\<lambda>(model, data, thresh, minMatches, allIdxs, iterI). length data - iterI)")
     auto

declare ransac_search.simps [simp del]

text \<open>The refinement loop, \<open>k\<close> passes of it left.\<close>

fun ransac_refine ::
  "('c, 't) model \<Rightarrow> 'c list \<Rightarrow> real \<Rightarrow> nat \<Rightarrow> 't \<Rightarrow> nat list \<Rightarrow> error + ('t \<times> nat list)" where
  "ransac_refine model data thresh 0 betterFit betterInlierIdxs =
     Inr (betterFit, betterInlierIdxs)"
| "ransac_refine model data thresh (Suc k) betterFit betterInlierIdxs =
     (case getError model data betterFit of
        Inl e \<Rightarrow> Inl e
      | Inr testErr \<Rightarrow>
          let idxs = filter (below testErr thresh) [0 ..< length data]
          in (case fit model (map (\<lambda>i. data ! i) idxs) of
                Inl e \<Rightarrow> Inl e
              | Inr newFit \<Rightarrow> ransac_refine model data thresh k newFit idxs))"

definition ransac ::
  "(nat \<Rightarrow> real) \<Rightarrow> 'c list \<Rightarrow> ('c, 't) model \<Rightarrow> real \<Rightarrow> nat \<Rightarrow> error + ('t \<times> nat list)" where
  "ransac rand data model thresh minMatches =
     (let allIdxs = shuffle rand (length data)
      in case ransac_search model data thresh minMatches allIdxs 0 of
           Inl e \<Rightarrow> Inl e
         | Inr None \<Rightarrow> Inl MatchExhaustion
         | Inr (Some goodFit) \<Rightarrow> ransac_refine model data thresh 3 goodFit [])"

text \<open>
  The supporting inliers of the hypothesis sampled at position \<open>i\<close> of the shuffled
  order, in the words of the specification: the other candidates whose error under
  the hypothesis is strictly below the tolerance. \<open>err c c'\<close> is the error of the
  candidate \<open>c'\<close> under the hypothesis fitted from \<open>c\<close> alone.
\<close>

definition supporters ::
  "('c \<Rightarrow> 'c \<Rightarrow> real) \<Rightarrow> 'c list \<Rightarrow> real \<Rightarrow> nat list \<Rightarrow> nat \<Rightarrow> nat list" where
  "supporters err data thresh allIdxs i =
     filter (\<lambda>j. err (data ! (allIdxs ! i)) (data ! j) < thresh)
       (take i allIdxs @ drop (Suc i) allIdxs)"

text \<open>
  A model whose methods return normally on the candidates of \<open>data\<close>: \<open>H c\<close> is the
  hypothesis fitted from the candidate \<open>c\<close> alone, and under it \<open>getError\<close> gives
  each candidate \<open>c'\<close> the error \<open>err c c'\<close>.
\<close>

definition pointwise_model ::
  "('c, 't) model \<Rightarrow> 'c list \<Rightarrow> ('c \<Rightarrow> 't) \<Rightarrow> ('c \<Rightarrow> 'c \<Rightarrow> real) \<Rightarrow> bool" where
  "pointwise_model model data H err \<longleftrightarrow>
     (\<forall>c \<in> set data. fit model [c] = Inr (H c)
        \<and> (\<forall>cs. set cs \<subseteq> set data \<longrightarrow> getError model cs (H c) = Inr (map (err c) cs)))"

text \<open>\<open>Math.random()\<close> returns a number of the interval \<open>[0, 1)\<close>.\<close>

definition unit_draws :: "(nat \<Rightarrow> real) \<Rightarrow> bool" where
  "unit_draws rand \<longleftrightarrow> (\<forall>k. 0 \<le> rand k \<and> rand k < 1)"

text \<open>
  The hypothesis that \<open>MatchTransform\<close> fits from one candidate, and the error it gives
  a candidate, for candidates whose indices lie inside the point sets (where no read
  fails).
\<close>

definition sampleFit :: "'t externals \<Rightarrow> point list \<Rightarrow> point list \<Rightarrow> candidate \<Rightarrow> 't" where
  "sampleFit ext source target c =
     nudged_estimate ext (map (\<lambda>(s, t). source ! s) (flat [c]))
       (map (\<lambda>(s, t). target ! t) (flat [c]))"

definition triangleResidual ::
  "'t externals \<Rightarrow> point list \<Rightarrow> point list \<Rightarrow> 't \<Rightarrow> candidate \<Rightarrow> real" where
  "triangleResidual ext source target approxT triangle =
     (case triangle of ((s1, t1), (s2, t2), (s3, t3)) \<Rightarrow>
        max (nudged_residual ext approxT (source ! s1) (target ! t1))
          (max (nudged_residual ext approxT (source ! s2) (target ! t2))
               (nudged_residual ext approxT (source ! s3) (target ! t3))))"

section \<open>findTransform\<close>

text \<open>
  An input is a list of \<open>(x, y)\<close> coordinates or something else (image data). The
  parameters \<open>detectionSigma\<close> and \<open>minArea\<close> only reach the image branch and are left
  out.
\<close>

datatype input = Coordinates "point list" | Image

definition PIXEL_TOL :: real where
  "PIXEL_TOL = 2"

definition MIN_MATCHES_FRACTION :: real where
  "MIN_MATCHES_FRACTION = 0.8"

text \<open>
  The \<open>try\<close> block that reads one input. \<open>data[0] && data[0].length === 2\<close> holds for
  a non-empty coordinate list, which is cut by \<open>slice(0, maxControlPoints)\<close>. Every
  other input reaches the call of \<open>_findSources\<close>, a function the module neither
  defines nor imports: the call throws, and the \<open>catch\<close> (\<open>None\<close> here) turns it
  into the input-type error.
\<close>

definition controlPoints :: "input \<Rightarrow> nat \<Rightarrow> point list option" where
  "controlPoints inp maxControlPoints =
     (case inp of
        Coordinates (p # ps) \<Rightarrow> Some (take maxControlPoints (p # ps))
      | _ \<Rightarrow> None)"

text \<open>\<open>t1.map((sIdx, j) => [sIdx, t2[j]])\<close>\<close>

definition pairUp :: "nat \<times> nat \<times> nat \<Rightarrow> nat \<times> nat \<times> nat \<Rightarrow> candidate" where
  "pairUp t1 t2 =
     (case (t1, t2) of ((a, b, c), (a', b', c')) \<Rightarrow> ((a, a'), (b, b'), (c, c')))"

text \<open>
  The candidate correspondences: the invariants of both point sets, the radius
  query (radius \<open>0.1\<close>) of every source descriptor in the target descriptors, and the
  pairing of each source triangle with every target triangle found.
\<close>

definition findTransform_matches ::
  "'t externals \<Rightarrow> point list \<Rightarrow> point list \<Rightarrow> error + candidate list" where
  "findTransform_matches ext sourceControlP targetControlP =
     (case generateInvariants (kdtree_knn ext) sourceControlP of
        Inl e \<Rightarrow> Inl e
      | Inr (sourceInvariants, sourceAsterisms) \<Rightarrow>
     (case generateInvariants (kdtree_knn ext) targetControlP of
        Inl e \<Rightarrow> Inl e
      | Inr (targetInvariants, targetAsterisms) \<Rightarrow>
          let matchesList = map (\<lambda>sourceInv. kdtree_rnn ext targetInvariants sourceInv 0.1)
                              sourceInvariants
          in (case emap (\<lambda>i. emap (\<lambda>t2Idx.
                                      case at_index targetAsterisms t2Idx of
                                        Inl e \<Rightarrow> Inl e
                                      | Inr t2 \<Rightarrow> Inr (pairUp (sourceAsterisms ! i) t2))
                                   (matchesList ! i))
                        [0 ..< length sourceAsterisms] of
                Inl e \<Rightarrow> Inl e
              | Inr per_triangle \<Rightarrow> Inr (concat per_triangle))))"

text \<open>\<open>Math.max(1, Math.min(10, Math.floor(nInvariants * MIN_MATCHES_FRACTION)))\<close>\<close>

definition minMatchesOf :: "nat \<Rightarrow> nat" where
  "minMatchesOf nInvariants = max 1 (min 10 (nat \<lfloor>real nInvariants * MIN_MATCHES_FRACTION\<rfloor>))"

text \<open>The transform and the inlier indices: the direct fit, or \<open>ransac\<close>.\<close>

definition findTransform_estimate ::
  "'t externals \<Rightarrow> point list \<Rightarrow> point list \<Rightarrow> candidate list \<Rightarrow> error + ('t \<times> nat list)" where
  "findTransform_estimate ext sourceControlP targetControlP matches =
     (let invModel = MatchTransform ext sourceControlP targetControlP;
          nInvariants = length matches;
          minMatches = minMatchesOf nInvariants
      in if (length sourceControlP = 3 \<or> length targetControlP = 3) \<and> length matches = 1
         then (case fit invModel matches of
                 Inl e \<Rightarrow> Inl e
               | Inr bestT \<Rightarrow> Inr (bestT, [0 ..< length matches]))
         else ransac (math_random ext) matches invModel PIXEL_TOL minMatches)"

text \<open>
  \<open>Object.values(Object.fromEntries(pairs.map((m) => [JSON.stringify(m), m])))\<close>:
  the keys are strings, so the object keeps the order of first insertion, and a
  repeated pair changes nothing.
\<close>

definition uniquePairs :: "(nat \<times> nat) list \<Rightarrow> (nat \<times> nat) list" where
  "uniquePairs pairs = fold (\<lambda>m acc. if m \<in> set acc then acc else acc @ [m]) pairs []"

text \<open>
  The loop that fills \<open>inlDict\<close>, an object keyed by the source index whose values
  are \<open>[tI, error]\<close>.
\<close>

fun resolveLoop ::
  "'t externals \<Rightarrow> point list \<Rightarrow> point list \<Rightarrow> 't \<Rightarrow> (nat \<times> nat) list
     \<Rightarrow> (nat \<times> real) intobj \<Rightarrow> error + (nat \<times> real) intobj" where
  "resolveLoop ext sourceControlP targetControlP bestT [] inlDict = Inr inlDict"
| "resolveLoop ext sourceControlP targetControlP bestT ((sI, tI) # rest) inlDict =
     (case at_index sourceControlP sI of Inl e \<Rightarrow> Inl e | Inr sVertex \<Rightarrow>
      case at_index targetControlP tI of Inl e \<Rightarrow> Inl e | Inr tVertex \<Rightarrow>
        let err = nudged_residual ext bestT sVertex tVertex
        in resolveLoop ext sourceControlP targetControlP bestT rest
             (case map_of inlDict sI of
                None \<Rightarrow> obj_set sI (tI, err) inlDict
              | Some prev \<Rightarrow> if err < snd prev then obj_set sI (tI, err) inlDict else inlDict))"

text \<open>
  What the loop maintains, for the pairs \<open>P\<close> seen so far and the residual \<open>r\<close>: the
  object has one entry per source index of \<open>P\<close>, and the entry of \<open>s\<close> is a pair of
  \<open>P\<close> whose residual is lowest among the pairs of \<open>s\<close>.
\<close>

definition resolved ::
  "(nat \<Rightarrow> nat \<Rightarrow> real) \<Rightarrow> (nat \<times> nat) set \<Rightarrow> (nat \<times> real) intobj \<Rightarrow> bool" where
  "resolved r P inlDict \<longleftrightarrow>
     sorted (map fst inlDict) \<and> distinct (map fst inlDict)
   \<and> fst ` set inlDict = fst ` P
   \<and> (\<forall>(s, t, e) \<in> set inlDict. (s, t) \<in> P \<and> e = r s t \<and> (\<forall>t'. (s, t') \<in> P \<longrightarrow> e \<le> r s t'))"

text \<open>The correspondence list \<open>inlArrUnique\<close> of \<open>(source, target)\<close> index pairs.\<close>

definition findTransform_correspondences ::
  "'t externals \<Rightarrow> point list \<Rightarrow> point list \<Rightarrow> candidate list \<Rightarrow> 't \<Rightarrow> nat list
     \<Rightarrow> error + (nat \<times> nat) list" where
  "findTransform_correspondences ext sourceControlP targetControlP matches bestT inlierInd =
     (let triangleInliers = flat (map (\<lambda>i. matches ! i) inlierInd);
          inlUnique = uniquePairs triangleInliers
      in case resolveLoop ext sourceControlP targetControlP bestT inlUnique [] of
           Inl e \<Rightarrow> Inl e
         | Inr inlDict \<Rightarrow> Inr (map (\<lambda>(sI, (tI, e)). (sI, tI)) inlDict))"

definition findTransform ::
  "'t externals \<Rightarrow> input \<Rightarrow> input \<Rightarrow> nat \<Rightarrow> error + ('t \<times> point list \<times> point list)" where
  "findTransform ext source target maxControlPoints =
     (case controlPoints source maxControlPoints of
        None \<Rightarrow> Inl InputTypeSource
      | Some sourceControlP \<Rightarrow>
     (case controlPoints target maxControlPoints of
        None \<Rightarrow> Inl InputTypeTarget
      | Some targetControlP \<Rightarrow>
        if length sourceControlP < 3 then Inl InsufficientSource
        else if length targetControlP < 3 then Inl InsufficientTarget
        else
          (case findTransform_matches ext sourceControlP targetControlP of
             Inl e \<Rightarrow> Inl e
           | Inr matches \<Rightarrow>
          (case findTransform_estimate ext sourceControlP targetControlP matches of
             Inl e \<Rightarrow> Inl e
           | Inr (bestT, inlierInd) \<Rightarrow>
          (case findTransform_correspondences ext sourceControlP targetControlP matches
                  bestT inlierInd of
             Inl e \<Rightarrow> Inl e
           | Inr inlArrUnique \<Rightarrow>
               Inr (bestT,
                    map (\<lambda>(i, j). sourceControlP ! i) inlArrUnique,
                    map (\<lambda>(i, j). targetControlP ! j) inlArrUnique))))))"

text \<open>Triangles and candidates whose indices lie inside the point sets.\<close>

definition triple_below :: "nat \<Rightarrow> nat \<times> nat \<times> nat \<Rightarrow> bool" where
  "triple_below n tri \<longleftrightarrow> (case tri of (a, b, c) \<Rightarrow> a < n \<and> b < n \<and> c < n)"

definition candidate_below :: "nat \<Rightarrow> nat \<Rightarrow> candidate \<Rightarrow> bool" where
  "candidate_below n m cand \<longleftrightarrow>
     (case cand of ((s1, t1), (s2, t2), (s3, t3)) \<Rightarrow>
        s1 < n \<and> s2 < n \<and> s3 < n \<and> t1 < m \<and> t2 < m \<and> t3 < m)"

text \<open>
  Stand-ins for the estimator and the random source where the model is run on
  concrete points: a translation that carries the first domain point to the first
  range point, the distance left after it, and a generator that always returns 0.
\<close>

definition estimate_ref :: "point list \<Rightarrow> point list \<Rightarrow> point" where
  "estimate_ref domain_pts range_pts =
     (case (domain_pts, range_pts) of
        (p # ps, q # qs) \<Rightarrow> (fst q - fst p, snd q - snd p)
      | _ \<Rightarrow> (0, 0))"

definition residual_ref :: "point \<Rightarrow> point \<Rightarrow> point \<Rightarrow> real" where
  "residual_ref t p q = sqrt (sqdist (fst p + fst t, snd p + snd t) q)"

definition ext_ref :: "point externals" where
  "ext_ref = \<lparr> kdtree_knn = knn_ref, kdtree_rnn = rnn_ref, nudged_estimate = estimate_ref,
               nudged_residual = residual_ref, math_random = (\<lambda>k. 0) \<rparr>"

text \<open>The point sets on which the model is run.\<close>

abbreviation right_triangle :: "point list" where
  "right_triangle \<equiv> [(0, 0), (4, 0), (0, 3)]"

abbreviation isosceles_triangle :: "point list" where
  "isosceles_triangle \<equiv> [(0, 0), (1, 0), (0, 1)]"

abbreviation unit_square :: "point list" where
  "unit_square \<equiv> [(0, 0), (1, 0), (1, 1), (0, 1)]"

abbreviation tied_triangle :: "point list" where
  "tied_triangle \<equiv> [(0, 0), (6, 0), (3, 4)]"

abbreviation rounded_tie_triangle :: "point list" where
  "rounded_tie_triangle \<equiv> [(0, 0), (1, 1 / 2 ^ 27), (0, 1)]"

abbreviation coincident_points :: "point list" where
  "coincident_points \<equiv> [(0, 0), (0, 0), (0, 0)]"

section \<open>Rounding to double\<close>

lemma round_even_of_int [simp]: "round_even (of_int n) = n"
  by (simp add: round_even_def)

lemma round_even_lower: "of_int n \<le> y \<Longrightarrow> n \<le> round_even y"
proof -
  assume "of_int n \<le> y"
  then have "n \<le> \<lfloor>y\<rfloor>" by (simp add: le_floor_iff)
  then show ?thesis by (auto simp: round_even_def Let_def)
qed

lemma round_even_uminus: "round_even (- y) = - round_even y"
proof (cases "y = of_int \<lfloor>y\<rfloor>")
  case True
  then obtain n :: int where "y = of_int n" by blast
  then have "- y = of_int (- n)" by simp
  then show ?thesis unfolding \<open>y = of_int n\<close> by (simp only: round_even_of_int)
next
  case False
  define f where "f = \<lfloor>y\<rfloor>"
  define d where "d = y - of_int f"
  have d: "0 < d" "d < 1" using False unfolding d_def f_def by linarith+
  have fl: "\<lfloor>- y\<rfloor> = - f - 1"
    unfolding f_def using False by (simp add: floor_minus ceiling_altdef)
  have d': "- y - of_int (- f - 1) = 1 - d" by (simp add: d_def)
  have ev: "even (- f - 1) \<longleftrightarrow> odd f" by simp
  show ?thesis
    unfolding round_even_def Let_def fl d' f_def [symmetric] d_def [symmetric] ev
    using d by auto
qed

lemma binade_uminus: "binade (- x) = binade x"
  by (simp add: binade_def)

lemma round64_uminus: "round64 (- x) = fl_neg (round64 x)"
proof (cases "x = 0")
  case True
  then show ?thesis by (simp add: round64_def)
next
  case False
  have "real_of_int (round_even (- x / 2 powi binade x)) = - real_of_int (round_even (x / 2 powi binade x))"
    using round_even_uminus [of "x / 2 powi binade x"] by simp
  then show ?thesis using False
    by (auto simp: round64_def binade_uminus Let_def)
qed

lemma round64_nonneg:
  assumes "0 \<le> x"
  shows "nonneg (round64 x)"
proof (cases "x = 0")
  case True
  then show ?thesis by (simp add: round64_def)
next
  case False
  with assms have pos: "0 < x" by simp
  have q: "0 < (2 :: real) powi binade x" by simp
  have "real_of_int 0 \<le> x / 2 powi binade x" using pos q by simp
  then have "0 \<le> round_even (x / 2 powi binade x)" by (rule round_even_lower)
  then have "0 \<le> real_of_int (round_even (x / 2 powi binade x)) * 2 powi binade x"
    by simp
  then show ?thesis using pos by (simp add: round64_def Let_def)
qed

lemma round64_at_least_one:
  assumes "1 \<le> x"
  shows "at_least_one (round64 x)"
proof -
  define e where "e = \<lfloor>log 2 x\<rfloor>"
  have pos: "0 < x" using assms by simp
  have "0 \<le> log 2 x" using assms by simp
  then have e0: "0 \<le> e" unfolding e_def by simp
  have "\<bar>x\<bar> = x" using pos by simp
  then have b: "binade x = e - 52" using e0
    by (simp add: binade_def e_def [symmetric])
  have "2 powr (of_int e) \<le> x"
    using floor_log_eq_powr_iff [of x 2 e] pos by (simp add: e_def)
  then have lo: "2 powi e \<le> x" by (simp add: powr_real_of_int')
  have "real_of_int (2 ^ 52) = 2 powi e / 2 powi (e - 52)"
    by (simp add: power_int_diff)
  also have "\<dots> \<le> x / 2 powi (e - 52)"
    using lo by (simp add: divide_right_mono)
  finally have "2 ^ 52 \<le> round_even (x / 2 powi (e - 52))" by (rule round_even_lower)
  then have "real_of_int (2 ^ 52) \<le> real_of_int (round_even (x / 2 powi (e - 52)))"
    by linarith
  then have "real_of_int (2 ^ 52) * 2 powi (e - 52) \<le> real_of_int (round_even (x / 2 powi (e - 52))) * 2 powi (e - 52)"
    by (simp add: mult_right_mono)
  moreover have "real_of_int (2 ^ 52) * 2 powi (e - 52) = 2 powi e"
    by (simp add: power_int_diff)
  moreover have "(1 :: real) \<le> 2 powi e" using e0 by (simp add: one_le_power_int)
  ultimately have "1 \<le> real_of_int (round_even (x / 2 powi (e - 52))) * 2 powi (e - 52)"
    by linarith
  then show ?thesis using pos by (simp add: round64_def Let_def b)
qed

lemma rounding_round64: "rounding round64"
  unfolding rounding_def
  using round64_nonneg round64_at_least_one round64_uminus by (simp add: round64_def)

lemma rounding_Fin: "rounding Fin"
  by (simp add: rounding_def)

lemma round64_exact:
  assumes "x \<noteq> 0" and "x / 2 powi binade x = of_int n" and "\<bar>x\<bar> < 2 ^ 1024"
  shows "round64 x = Fin x"
proof -
  have "real_of_int (round_even (x / 2 powi binade x)) * 2 powi binade x = x"
    unfolding assms(2) round_even_of_int using assms(2) by (simp add: field_simps)
  then show ?thesis using assms(1,3) by (simp add: round64_def Let_def)
qed

lemma round64_of_int:
  assumes "\<bar>m\<bar> < 2 ^ 53"
  shows "round64 (of_int m) = Fin (of_int m)"
proof (cases "m = 0")
  case True
  then show ?thesis by (simp add: round64_def)
next
  case False
  define x :: real where "x = \<bar>of_int m\<bar>"
  have "1 \<le> \<bar>m\<bar>" using False by linarith
  then have "1 \<le> real_of_int \<bar>m\<bar>" by linarith
  then have x1: "1 \<le> x" unfolding x_def by simp
  have xu: "x < 2 ^ 53" using assms unfolding x_def
    by (metis of_int_abs of_int_less_numeral_power_cancel_iff)
  define e where "e = \<lfloor>log 2 x\<rfloor>"
  have "0 \<le> log 2 x" using x1 by simp
  then have e0: "0 \<le> e" unfolding e_def by simp
  have l: "log 2 ((2 :: real) ^ 53) = real 53" by (rule log_pow_cancel) simp_all
  have "log 2 x < log 2 (2 ^ 53)" using x1 xu by (subst log_less_cancel_iff) simp_all
  then have "log 2 x < 53" unfolding l by simp
  then have eu: "e \<le> 52" unfolding e_def by linarith
  have b: "binade (of_int m) = e - 52"
    using e0 by (simp add: binade_def e_def x_def)
  have "real_of_int m / 2 powi (e - 52) = real_of_int m * 2 powi (52 - e)"
    by (simp add: power_int_diff)
  also have "\<dots> = real_of_int m * 2 ^ nat (52 - e)"
    using eu by (simp add: power_int_def)
  also have "\<dots> = real_of_int (m * 2 ^ nat (52 - e))" by simp
  finally have ex: "real_of_int m / 2 powi binade (of_int m) = real_of_int (m * 2 ^ nat (52 - e))"
    unfolding b .
  have nz: "real_of_int m \<noteq> 0" using False by simp
  have "\<bar>real_of_int m\<bar> < 2 ^ 1024"
  proof -
    have "(2 :: real) ^ 53 \<le> 2 ^ 1024" by (rule power_increasing) simp_all
    with xu show ?thesis unfolding x_def by linarith
  qed
  with nz ex show ?thesis by (rule round64_exact)
qed

lemma binade_power2: "binade (2 ^ n) = int n - 52"
proof -
  have "\<lfloor>log 2 ((2 :: real) ^ n)\<rfloor> = int n" by simp
  then show ?thesis by (simp add: binade_def)
qed

lemma round64_power2: "round64 (2 ^ n) = (if n < 1024 then Fin (2 ^ n) else PosInf)"
proof -
  have d: "(2 :: real) ^ n / 2 powi (int n - 52) = real_of_int (2 ^ 52)"
    by (simp add: power_int_diff)
  have y: "real_of_int (round_even ((2 :: real) ^ n / 2 powi (int n - 52))) * 2 powi (int n - 52) = 2 ^ n"
    unfolding d round_even_of_int by (simp add: power_int_diff)
  have a: "\<bar>(2 :: real) ^ n\<bar> = 2 ^ n" by simp
  have c: "(2 :: real) ^ 1024 \<le> \<bar>2 ^ n\<bar> \<longleftrightarrow> \<not> n < 1024"
    unfolding a not_less by (rule power_increasing_iff) simp
  have nz: "(2 :: real) ^ n \<noteq> 0" "0 < (2 :: real) ^ n" by simp_all
  show ?thesis
    unfolding round64_def Let_def binade_power2 y c using nz by (cases "n < 1024") simp_all
qed

lemma round64_zero: "round64 0 = Fin 0"
  by (simp add: round64_def)

lemma round64_values:
  "round64 3 = Fin 3" "round64 4 = Fin 4" "round64 5 = Fin 5" "round64 6 = Fin 6"
  "round64 9 = Fin 9" "round64 16 = Fin 16" "round64 25 = Fin 25" "round64 36 = Fin 36"
  "round64 (- 3) = Fin (- 3)" "round64 (- 4) = Fin (- 4)" "round64 (- 6) = Fin (- 6)"
  using round64_of_int [of 3] round64_of_int [of 4] round64_of_int [of 5] round64_of_int [of 6]
    round64_of_int [of 9] round64_of_int [of 16] round64_of_int [of 25] round64_of_int [of 36]
    round64_of_int [of "- 3"] round64_of_int [of "- 4"] round64_of_int [of "- 6"]
  by simp_all

lemma round64_one: "round64 1 = Fin 1" "round64 (- 1) = Fin (- 1)"
  using round64_of_int [of 1] round64_of_int [of "- 1"] by simp_all

lemma round_even_upper: "y \<le> of_int n \<Longrightarrow> round_even y \<le> n"
proof -
  assume "y \<le> of_int n"
  then have "real_of_int (- n) \<le> - y" by simp
  then have "- n \<le> round_even (- y)" by (rule round_even_lower)
  then show ?thesis by (simp add: round_even_uminus)
qed

lemma round_even_half_even: "even f \<Longrightarrow> round_even (of_int f + 1 / 2) = f"
proof -
  assume e: "even f"
  have fl: "\<lfloor>real_of_int f + 1 / 2\<rfloor> = f" by linarith
  show ?thesis unfolding round_even_def Let_def fl using e by simp
qed

lemma round_even_near:
  assumes "real_of_int f \<le> y" and "y < real_of_int f + 1 / 2"
  shows "round_even y = f"
proof -
  have "\<lfloor>y\<rfloor> = f" using assms by linarith
  then show ?thesis using assms by (simp add: round_even_def Let_def)
qed

lemma binade_bounds:
  assumes "2 powi e \<le> \<bar>x\<bar>" and "\<bar>x\<bar> < 2 powi (e + 1)" and "- 1022 \<le> e"
  shows "binade x = e - 52"
proof -
  have pos: "0 < \<bar>x\<bar>" using assms(1) by (rule less_le_trans [rotated]) simp
  have p1: "(2 :: real) powr real_of_int e = 2 powi e" by (rule powr_real_of_int') simp_all
  have p2: "(2 :: real) powr real_of_int (e + 1) = 2 powi (e + 1)"
    by (rule powr_real_of_int') simp_all
  have "(1 :: real) < 2" by simp
  from floor_log_eq_powr_iff [OF pos this, of e] have "\<lfloor>log 2 \<bar>x\<bar>\<rfloor> = e"
    unfolding p1 p2 using assms(1,2) by blast
  then show ?thesis using assms(3) by (simp add: binade_def)
qed

lemma round64_between:
  assumes b: "binade x = b" and pos: "0 < x"
    and lo: "real_of_int n1 * 2 powi b \<le> x" and hi: "x \<le> real_of_int n2 * 2 powi b"
    and fin: "real_of_int n2 * 2 powi b < 2 ^ 1024"
  shows "\<exists>y. round64 x = Fin y \<and> real_of_int n1 * 2 powi b \<le> y \<and> y \<le> real_of_int n2 * 2 powi b"
proof -
  have q: "0 < (2 :: real) powi b" by simp
  define r where "r = round_even (x / 2 powi b)"
  have "real_of_int n1 \<le> x / 2 powi b" using lo q by (simp add: pos_le_divide_eq)
  then have l: "n1 \<le> r" unfolding r_def by (rule round_even_lower)
  have "x / 2 powi b \<le> real_of_int n2" using hi q by (simp add: pos_divide_le_eq)
  then have u: "r \<le> n2" unfolding r_def by (rule round_even_upper)
  have "real_of_int 0 \<le> x / 2 powi b" using pos q by simp
  then have r0: "0 \<le> r" unfolding r_def by (rule round_even_lower)
  have yl: "real_of_int n1 * 2 powi b \<le> real_of_int r * 2 powi b"
    using l q by (simp add: mult_right_mono)
  have yu: "real_of_int r * 2 powi b \<le> real_of_int n2 * 2 powi b"
    using u q by (simp add: mult_right_mono)
  have "0 \<le> real_of_int r * 2 powi b" using r0 q by simp
  then have "\<bar>real_of_int r * 2 powi b\<bar> < 2 ^ 1024" using yu fin by linarith
  then have "round64 x = Fin (real_of_int r * 2 powi b)"
    using pos by (simp add: round64_def Let_def b r_def not_le)
  with yl yu show ?thesis by blast
qed

lemma round64_neg_eps: "round64 (- (1 / 2 ^ 27)) = Fin (- (1 / 2 ^ 27))"
proof (rule round64_exact)
  have b: "binade (- (1 / 2 ^ 27)) = - 27 - 52"
    by (rule binade_bounds) (simp_all add: power_int_minus)
  show "- (1 / 2 ^ 27) / 2 powi binade (- (1 / 2 ^ 27)) = real_of_int (- (2 ^ 52))"
    unfolding b by (simp add: power_int_minus)
qed simp_all

lemma round64_eps: "round64 (1 / 2 ^ 27) = Fin (1 / 2 ^ 27)"
  using round64_neg_eps round64_uminus [of "- (1 / 2 ^ 27)"]
  by (cases "round64 (1 / 2 ^ 27)") simp_all

lemma round64_eps_sq: "round64 (1 / 2 ^ 27 * (1 / 2 ^ 27)) = Fin (1 / 2 ^ 27 * (1 / 2 ^ 27))"
proof (rule round64_exact)
  have b: "binade (1 / 2 ^ 27 * (1 / 2 ^ 27)) = - 54 - 52"
    by (rule binade_bounds) (simp_all add: power_int_minus)
  show "1 / 2 ^ 27 * (1 / 2 ^ 27) / 2 powi binade (1 / 2 ^ 27 * (1 / 2 ^ 27)) = real_of_int (2 ^ 52)"
    unfolding b by (simp add: power_int_minus)
qed simp_all

lemma round64_one_eps_sq: "round64 (1 + 1 / 2 ^ 27 * (1 / 2 ^ 27)) = Fin 1"
proof -
  have b: "binade (1 + 1 / 2 ^ 27 * (1 / 2 ^ 27)) = 0 - 52"
    by (rule binade_bounds) (simp_all add: power_int_minus)
  have "round_even ((1 + 1 / 2 ^ 27 * (1 / 2 ^ 27)) / 2 powi (0 - 52)) = 2 ^ 52"
    by (rule round_even_near) (simp_all add: power_int_minus)
  then show ?thesis
    unfolding round64_def Let_def b by (simp add: power_int_minus)
qed

lemma round64_eps_minus_one: "round64 (1 / 2 ^ 27 - 1) = Fin (1 / 2 ^ 27 - 1)"
proof (rule round64_exact)
  have b: "binade (1 / 2 ^ 27 - 1) = - 1 - 52"
    by (rule binade_bounds) (simp_all add: power_int_minus)
  show "(1 / 2 ^ 27 - 1) / 2 powi binade (1 / 2 ^ 27 - 1) = real_of_int (2 ^ 26 - 2 ^ 53)"
    unfolding b by (simp add: power_int_minus)
qed simp_all

lemma round64_one_minus_eps: "round64 (1 - 1 / 2 ^ 27) = Fin (1 - 1 / 2 ^ 27)"
proof (rule round64_exact)
  have b: "binade (1 - 1 / 2 ^ 27) = - 1 - 52"
    by (rule binade_bounds) (simp_all add: power_int_minus)
  show "(1 - 1 / 2 ^ 27) / 2 powi binade (1 - 1 / 2 ^ 27) = real_of_int (2 ^ 53 - 2 ^ 26)"
    unfolding b by (simp add: power_int_minus)
qed simp_all

lemma round64_long_sq:
  "round64 ((1 / 2 ^ 27 - 1) * (1 / 2 ^ 27 - 1)) = Fin (1 - 1 / 2 ^ 26)"
proof -
  have b: "binade ((1 / 2 ^ 27 - 1) * (1 / 2 ^ 27 - 1)) = - 1 - 52"
    by (rule binade_bounds) (simp_all add: power_int_minus)
  have "(1 / 2 ^ 27 - 1) * (1 / 2 ^ 27 - 1) / 2 powi (- 1 - 52)
      = real_of_int (2 ^ 53 - 2 ^ 27) + 1 / 2"
    by (simp add: power_int_minus)
  moreover have "even ((2 :: int) ^ 53 - 2 ^ 27)" by simp
  ultimately have "round_even ((1 / 2 ^ 27 - 1) * (1 / 2 ^ 27 - 1) / 2 powi (- 1 - 52))
      = 2 ^ 53 - 2 ^ 27"
    by (simp only: round_even_half_even)
  then show ?thesis
    unfolding round64_def Let_def b by (simp add: power_int_minus)
qed

lemma round64_long_sq_sym: "round64 ((1 - 1 / 2 ^ 27) * (1 - 1 / 2 ^ 27)) = Fin (1 - 1 / 2 ^ 26)"
proof -
  have "(1 - 1 / 2 ^ 27) * (1 - 1 / 2 ^ 27) = (1 / 2 ^ 27 - 1) * (1 / 2 ^ 27 - (1 :: real))"
    by (simp add: algebra_simps)
  then show ?thesis using round64_long_sq by simp
qed

lemma round64_long_sum: "round64 (1 + (1 - 1 / 2 ^ 26)) = Fin (1 + (1 - 1 / 2 ^ 26))"
proof (rule round64_exact)
  have b: "binade (1 + (1 - 1 / 2 ^ 26)) = 0 - 52"
    by (rule binade_bounds) (simp_all add: power_int_minus)
  show "(1 + (1 - 1 / 2 ^ 26)) / 2 powi binade (1 + (1 - 1 / 2 ^ 26)) = real_of_int (2 ^ 53 - 2 ^ 26)"
    unfolding b by (simp add: power_int_minus)
qed simp_all

lemma round64_long_sqrt: "\<exists>L. round64 (sqrt (1 + (1 - 1 / 2 ^ 26))) = Fin L \<and> 1 < L"
proof -
  let ?s = "1 + (1 - 1 / 2 ^ 26) :: real"
  have lo: "5 / 4 \<le> sqrt ?s" by (rule real_le_rsqrt) (simp add: power2_eq_square)
  have hi: "sqrt ?s < 2" by (rule real_less_lsqrt) simp_all
  have b: "binade (sqrt ?s) = 0 - 52"
    by (rule binade_bounds) (use lo hi in simp_all)
  have "\<exists>y. round64 (sqrt ?s) = Fin y \<and> real_of_int (5 * 2 ^ 50) * 2 powi (0 - 52) \<le> y
      \<and> y \<le> real_of_int (2 ^ 53) * 2 powi (0 - 52)"
    using b
  proof (rule round64_between)
    show "0 < sqrt ?s" using lo by linarith
    show "real_of_int (5 * 2 ^ 50) * 2 powi (0 - 52) \<le> sqrt ?s"
      using lo by (simp add: power_int_minus)
    show "sqrt ?s \<le> real_of_int (2 ^ 53) * 2 powi (0 - 52)"
      using hi by (simp add: power_int_minus)
    show "real_of_int (2 ^ 53) * 2 powi (0 - 52) < 2 ^ 1024"
      by (simp add: power_int_minus)
  qed
  then obtain y where y: "round64 (sqrt ?s) = Fin y"
    and "real_of_int (5 * 2 ^ 50) * 2 powi (0 - 52) \<le> y" by blast
  then have "5 / 4 \<le> y" by (simp add: power_int_minus)
  then have "1 < y" by simp
  with y show ?thesis by blast
qed

lemma js_less_asym: "js_less a b \<Longrightarrow> \<not> js_less b a"
  by (cases a; cases b) simp_all

lemma js_sort3:
  obtains s0 s1 s2 where "js_sort_by id [a, b, c] = [s0, s1, s2]"
    "\<not> js_less s1 s0" "\<not> js_less s2 s1" "mset [s0, s1, s2] = mset [a, b, c]"
proof -
  have "\<exists>s0 s1 s2. js_sort_by id [a, b, c] = [s0, s1, s2]
      \<and> \<not> js_less s1 s0 \<and> \<not> js_less s2 s1 \<and> mset [s0, s1, s2] = mset [a, b, c]"
    using js_less_asym [of c b] js_less_asym [of b a] js_less_asym [of c a]
    by (simp add: js_sort_by_def)
  then show thesis using that by blast
qed

lemma rounding_not_NaN: "rounding rnd \<Longrightarrow> rnd x \<noteq> NaN"
proof -
  assume r: "rounding rnd"
  show ?thesis
  proof (cases "0 \<le> x")
    case True
    with r have "nonneg (rnd x)" by (simp add: rounding_def)
    then show ?thesis by (cases "rnd x") simp_all
  next
    case False
    then have "0 \<le> - x" by simp
    with r have "nonneg (rnd (- x))" unfolding rounding_def by blast
    moreover have "rnd (- x) = fl_neg (rnd x)" using r unfolding rounding_def by blast
    ultimately show ?thesis by (cases "rnd x") simp_all
  qed
qed

lemma fl_sq_neg: "fl_sq rnd (fl_neg v) = fl_sq rnd v"
  by (cases v) simp_all

lemma nonneg_fl_sq: "rounding rnd \<Longrightarrow> v \<noteq> NaN \<Longrightarrow> nonneg (fl_sq rnd v)"
  by (cases v) (simp_all add: rounding_def)

lemma nonneg_fl_add: "rounding rnd \<Longrightarrow> nonneg a \<Longrightarrow> nonneg b \<Longrightarrow> nonneg (fl_add rnd a b)"
  by (cases a; cases b) (simp_all add: rounding_def)

lemma nonneg_sqdist_fl: "rounding rnd \<Longrightarrow> nonneg (sqdist_fl rnd p q)"
  unfolding sqdist_fl_def
  by (intro nonneg_fl_add nonneg_fl_sq rounding_not_NaN)

lemma fl_ratio:
  assumes "rounding rnd" and "0 < y" and "y \<le> z"
  shows "at_least_one (fl_sqrt rnd (rnd (z / y)))"
proof -
  have "1 \<le> z / y" using assms(2,3) by simp
  then have a: "at_least_one (rnd (z / y))" using assms(1) by (simp add: rounding_def)
  show ?thesis
  proof (cases "rnd (z / y)")
    case (Fin w)
    with a have "1 \<le> sqrt w" by simp
    then have "at_least_one (rnd (sqrt w))" using assms(1) by (simp add: rounding_def)
    moreover have "\<not> w < 0" using a Fin by simp
    ultimately show ?thesis by (simp add: Fin)
  qed (use a in simp_all)
qed

lemma at_least_one_not_NaN: "at_least_one v \<Longrightarrow> v \<noteq> NaN"
  by (cases v) simp_all

section \<open>Descriptor computation\<close>

lemma sqdist_nonneg: "0 \<le> sqdist p q"
  by (simp add: sqdist_def)

lemma list3: "length xs = 3 \<Longrightarrow> \<exists>a b c. xs = [a, b, c]"
  by (auto simp: numeral_3_eq_3 length_Suc_conv)

lemma sort3_shape:
  fixes a b c :: real
  obtains s0 s1 s2 where "sort [a, b, c] = [s0, s1, s2]" "s0 \<le> s1" "s1 \<le> s2"
    "mset [s0, s1, s2] = mset [a, b, c]"
proof -
  have "length (sort [a, b, c]) = 3" by simp
  then obtain s0 s1 s2 where s: "sort [a, b, c] = [s0, s1, s2]"
    using list3 by blast
  have "sorted (sort [a, b, c])" by (rule sorted_sort)
  with s have "s0 \<le> s1" "s1 \<le> s2" by simp_all
  moreover have "mset (sort [a, b, c]) = mset [a, b, c]" by (rule mset_sort)
  with s have "mset [s0, s1, s2] = mset [a, b, c]" by simp
  ultimately show thesis using s that by blast
qed

lemma sqrt_9: "sqrt 9 = 3"
proof -
  have "sqrt 9 = sqrt (3\<^sup>2)" by simp
  then show ?thesis by (simp del: power2_eq_square)
qed

lemma sqrt_16: "sqrt 16 = 4"
proof -
  have "sqrt 16 = sqrt (4\<^sup>2)" by simp
  then show ?thesis by (simp del: power2_eq_square)
qed

lemma sqrt_25: "sqrt 25 = 5"
proof -
  have "sqrt 25 = sqrt (5\<^sup>2)" by simp
  then show ?thesis by (simp del: power2_eq_square)
qed

lemma sqrt_36: "sqrt 36 = 6"
proof -
  have "sqrt 36 = sqrt (6\<^sup>2)" by simp
  then show ?thesis by (simp del: power2_eq_square)
qed

lemma descriptor_at_least_one:
  assumes r: "rounding rnd" and y: "0 < y"
    and n0: "nonneg s0" and n2: "nonneg s2"
    and o0: "\<not> js_less (Fin y) s0" and o2: "\<not> js_less s2 (Fin y)"
  shows "at_least_one (fl_sqrt rnd (fl_div rnd s2 (Fin y)))
       \<and> at_least_one (fl_sqrt rnd (fl_div rnd (Fin y) s0))"
proof
  show "at_least_one (fl_sqrt rnd (fl_div rnd s2 (Fin y)))"
  proof (cases s2)
    case (Fin z)
    with o2 have "y \<le> z" by simp
    from fl_ratio [OF r y this] show ?thesis using y by (simp add: Fin)
  next
    case PosInf
    then show ?thesis using y by simp
  qed (use n2 in simp_all)
  show "at_least_one (fl_sqrt rnd (fl_div rnd (Fin y) s0))"
  proof (cases s0)
    case (Fin x)
    with o0 n0 have x: "0 \<le> x" "x \<le> y" by simp_all
    show ?thesis
    proof (cases "x = 0")
      case True
      then show ?thesis using y by (simp add: Fin)
    next
      case False
      with x have "0 < x" by simp
      from fl_ratio [OF r this x(2)] show ?thesis using False by (simp add: Fin)
    qed
  qed (use n0 o0 in simp_all)
qed

lemma descriptor_NaN:
  assumes n0: "nonneg s0" and n2: "nonneg s2"
    and o0: "\<not> js_less s1 s0" and o2: "\<not> js_less s2 s1"
    and s1: "s1 = Fin 0 \<or> s1 = PosInf"
  shows "fl_sqrt rnd (fl_div rnd s2 s1) = NaN \<or> fl_sqrt rnd (fl_div rnd s1 s0) = NaN"
  using s1
proof
  assume z: "s1 = Fin 0"
  with n0 o0 have "s0 = Fin 0" by (cases s0) simp_all
  then show ?thesis by (simp add: z)
next
  assume i: "s1 = PosInf"
  with n2 o2 have "s2 = PosInf" by (cases s2) simp_all
  then show ?thesis by (simp add: i)
qed

lemma middle_zero:
  assumes "nonneg s0" "nonneg s1" "nonneg s2" "\<not> js_less s1 s0" "\<not> js_less s2 s1"
  shows "2 \<le> count_list [s0, s1, s2] (Fin 0) \<longleftrightarrow> s1 = Fin 0"
  using assms by (cases s0; cases s1; cases s2) auto

lemma middle_infinite:
  assumes "nonneg s0" "nonneg s1" "nonneg s2" "\<not> js_less s1 s0" "\<not> js_less s2 s1"
  shows "2 \<le> count_list [s0, s1, s2] PosInf \<longleftrightarrow> s1 = PosInf"
  using assms by (cases s0; cases s1; cases s2) auto

lemma count_list_mset: "mset xs = mset ys \<Longrightarrow> count_list xs v = count_list ys v"
  by (metis count_mset)

lemma sqdist_fl_same: "rounding rnd \<Longrightarrow> sqdist_fl rnd p p = Fin 0"
  by (simp add: sqdist_fl_def rounding_def)

lemma invariantFeatures_fl_same:
  "rounding rnd \<Longrightarrow> invariantFeatures_fl rnd p p p = (NaN, NaN)"
  by (simp add: invariantFeatures_fl_def sqdist_fl_same js_sort_by_def)

lemma sqdist_fl_right:
  "sqdist_fl round64 (0, 0) (4, 0) = Fin 16"
  "sqdist_fl round64 (4, 0) (0, 3) = Fin 25"
  "sqdist_fl round64 (0, 0) (0, 3) = Fin 9"
  "sqdist_fl round64 (0, 3) (0, 0) = Fin 9"
  by (simp_all add: sqdist_fl_def round64_values round64_zero)

lemma overflow_sq: "fl_sq round64 (round64 (2 ^ 512)) = PosInf"
proof -
  have "(2 :: real) ^ 512 * 2 ^ 512 = 2 ^ 1024" unfolding power_add [symmetric] by simp
  then show ?thesis
    unfolding round64_power2 [of 512] using round64_power2 [of 1024] by simp
qed

lemma overflow_features:
  assumes "fl_sq round64 (round64 B) = PosInf"
  shows "invariantFeatures_fl round64 (0, 0) (B, 0) (0, B) = (NaN, NaN)"
proof -
  have n: "fl_sq round64 (round64 (- B)) = PosInf"
    unfolding round64_uminus fl_sq_neg by (rule assms)
  have z: "fl_sq round64 (round64 0) = Fin 0" by (simp add: round64_zero)
  have "sqdist_fl round64 (0, 0) (B, 0) = PosInf" "sqdist_fl round64 (B, 0) (0, B) = PosInf"
    "sqdist_fl round64 (0, 0) (0, B) = PosInf"
    by (simp_all add: sqdist_fl_def n z assms)
  then show ?thesis by (simp add: invariantFeatures_fl_def js_sort_by_def)
qed

text \<open>
  Claim C8, as stated, fails in double arithmetic: the squares of the coordinate
  differences overflow for the pairwise distinct vertices \<open>(0, 0)\<close>, \<open>(2 ^ 512, 0)\<close>,
  \<open>(0, 2 ^ 512)\<close>, the three squared sides are infinite, and the descriptor is
  (NaN, NaN).
\<close>

theorem invariantFeatures_overflow_counterexample:
  "((0, 0) :: point) \<noteq> (2 ^ 512, 0) \<and> ((2 ^ 512, 0) :: point) \<noteq> (0, 2 ^ 512)
   \<and> ((0, 0) :: point) \<noteq> (0, 2 ^ 512)
   \<and> invariantFeatures_fl round64 (0, 0) (2 ^ 512, 0) (0, 2 ^ 512) = (NaN, NaN)"
  using overflow_features [OF overflow_sq] by simp

text \<open>
  Claim C8, amended. When the three computed squared sides \<open>s0 \<le> s1 \<le> s2\<close> are finite
  and not zero, the descriptor is the pair of the rounded square roots of the rounded
  quotients \<open>s2 / s1\<close> and \<open>s1 / s0\<close>, and each component is a number from 1 on or
  \<open>+Infinity\<close>. In exact arithmetic the descriptor is \<open>(L3 / L2, L2 / L1)\<close> for the
  sorted side lengths \<open>L1 = sqrt s0\<close>, \<open>L2 = sqrt s1\<close>, \<open>L3 = sqrt s2\<close>.
\<close>

theorem invariantFeatures_ratios:
  assumes r: "rounding rnd"
    and s: "js_sort_by id [sqdist_fl rnd x1 x2, sqdist_fl rnd x2 x3, sqdist_fl rnd x1 x3]
            = [Fin s0, Fin s1, Fin s2]"
    and pos: "0 < s0"
  shows "s0 \<le> s1 \<and> s1 \<le> s2
       \<and> invariantFeatures_fl rnd x1 x2 x3
           = (fl_sqrt rnd (rnd (s2 / s1)), fl_sqrt rnd (rnd (s1 / s0)))
       \<and> at_least_one (fst (invariantFeatures_fl rnd x1 x2 x3))
       \<and> at_least_one (snd (invariantFeatures_fl rnd x1 x2 x3))
       \<and> (rnd = Fin \<longrightarrow>
            invariantFeatures_fl rnd x1 x2 x3 = (Fin (sqrt s2 / sqrt s1), Fin (sqrt s1 / sqrt s0)))"
proof -
  let ?sides = "[sqdist_fl rnd x1 x2, sqdist_fl rnd x2 x3, sqdist_fl rnd x1 x3]"
  obtain t0 t1 t2 where t: "js_sort_by id ?sides = [t0, t1, t2]"
    and o: "\<not> js_less t1 t0" "\<not> js_less t2 t1"
    by (rule js_sort3)
  from t s have "t0 = Fin s0" "t1 = Fin s1" "t2 = Fin s2" by simp_all
  with o have le: "s0 \<le> s1" "s1 \<le> s2" by simp_all
  with pos have p1: "0 < s1" and p2: "0 < s2" by linarith+
  have f: "invariantFeatures_fl rnd x1 x2 x3
      = (fl_sqrt rnd (rnd (s2 / s1)), fl_sqrt rnd (rnd (s1 / s0)))"
    unfolding invariantFeatures_fl_def s using pos p1 by simp
  have a1: "at_least_one (fl_sqrt rnd (rnd (s2 / s1)))" using r p1 le(2) by (rule fl_ratio)
  have a2: "at_least_one (fl_sqrt rnd (rnd (s1 / s0)))" using r pos le(1) by (rule fl_ratio)
  have e: "invariantFeatures_fl rnd x1 x2 x3 = (Fin (sqrt s2 / sqrt s1), Fin (sqrt s1 / sqrt s0))"
    if "rnd = Fin"
    using f pos p1 p2 unfolding that
    by (simp add: real_sqrt_divide not_less zero_le_divide_iff)
  show ?thesis using le f a1 a2 e by simp
qed

theorem invariantFeatures_ratios_witness:
  "js_sort_by id [sqdist_fl round64 (0, 0) (4, 0), sqdist_fl round64 (4, 0) (0, 3),
                  sqdist_fl round64 (0, 0) (0, 3)] = [Fin 9, Fin 16, Fin 25]
   \<and> at_least_one (fst (invariantFeatures_fl round64 (0, 0) (4, 0) (0, 3)))
   \<and> at_least_one (snd (invariantFeatures_fl round64 (0, 0) (4, 0) (0, 3)))
   \<and> invariantFeatures_fl Fin (0, 0) (4, 0) (0, 3) = (Fin (5 / 4), Fin (4 / 3))"
proof -
  have s: "js_sort_by id [sqdist_fl round64 (0, 0) (4, 0), sqdist_fl round64 (4, 0) (0, 3),
      sqdist_fl round64 (0, 0) (0, 3)] = [Fin 9, Fin 16, Fin 25]"
    by (simp add: sqdist_fl_right js_sort_by_def)
  have e: "js_sort_by id [sqdist_fl Fin (0, 0) (4, 0), sqdist_fl Fin (4, 0) (0, 3),
      sqdist_fl Fin (0, 0) (0, 3)] = [Fin 9, Fin 16, Fin 25]"
    by (simp add: sqdist_fl_def js_sort_by_def)
  have p: "(0 :: real) < 9" by simp
  note a = invariantFeatures_ratios [OF rounding_round64 s p]
  note b = invariantFeatures_ratios [OF rounding_Fin e p]
  from b have "invariantFeatures_fl Fin (0, 0) (4, 0) (0, 3)
      = (Fin (sqrt 25 / sqrt 16), Fin (sqrt 16 / sqrt 9))"
    by blast
  then have "invariantFeatures_fl Fin (0, 0) (4, 0) (0, 3) = (Fin (5 / 4), Fin (4 / 3))"
    unfolding sqrt_9 sqrt_16 sqrt_25 .
  with a s show ?thesis by blast
qed

text \<open>
  Claim C4, as stated, fails: the descriptor computation has no guard and throws
  nothing. For three coincident points, every neighbour triangle gets the
  descriptor (NaN, NaN), and \<open>generateInvariants\<close> returns these descriptors.
\<close>

lemma coincident_knn:
  "knn_ref coincident_points (0, 0)
     (min (length coincident_points) NUM_NEAREST_NEIGHBORS)
     = [0, 1, 2]"
  by (simp add: knn_ref_def sqdist_def upt_conv_Cons NUM_NEAREST_NEIGHBORS_def)

lemma combinations_012: "combinations [0, 1, 2] = [(0, 1, 2)]"
  by (simp add: combinations_def upt_conv_Cons)

lemma coincident_arrange:
  "arrangeTriplet coincident_points (0, 1, 2) = Inr (Some 1, Some 2, Some 0)"
  by (simp add: arrangeTriplet_def at_index_def sqdist_def mostCommon_def)

lemma coincident_features:
  "tripletFeatures coincident_points (Some 1, Some 2, Some 0)
     = Inr ((NaN, NaN), (1, 2, 0))"
  by (simp add: tripletFeatures_def at_index_def sqdist_def invariantFeatures_def js_div_def)

lemma coincident_anchor:
  "anchorTriangles knn_ref coincident_points (0, 0) = Inr [((NaN, NaN), (1, 2, 0))]"
  unfolding anchorTriangles_def coincident_knn Let_def combinations_012
  by (simp del: One_nat_def add: coincident_arrange coincident_features)

lemma coincident_candidates:
  "candidateTriangles knn_ref coincident_points
     = Inr [((NaN, NaN), (1, 2, 0)), ((NaN, NaN), (1, 2, 0)), ((NaN, NaN), (1, 2, 0))]"
  unfolding candidateTriangles_def by (simp add: coincident_anchor)

lemma coincident_uniqInd: "uniqInd [(NaN, NaN), (NaN, NaN), (NaN, NaN)] = [0, 1, 2]"
  by (simp add: uniqInd_def desc_eq_def upt_conv_Cons)

lemma coincident_generateInvariants:
  "generateInvariants knn_ref coincident_points
     = Inr ([(NaN, NaN), (NaN, NaN), (NaN, NaN)], [(1, 2, 0), (1, 2, 0), (1, 2, 0)])"
  unfolding generateInvariants_def coincident_candidates by (simp add: coincident_uniqInd)

theorem nan_descriptor_counterexample:
  "invariantFeatures_fl round64 (0, 0) (0, 0) (0, 0) = (NaN, NaN)
   \<and> invariantFeatures (0, 0) (0, 0) (0, 0) = (NaN, NaN)
   \<and> generateInvariants knn_ref coincident_points
       = Inr ([(NaN, NaN), (NaN, NaN), (NaN, NaN)], [(1, 2, 0), (1, 2, 0), (1, 2, 0)])"
  using coincident_generateInvariants invariantFeatures_fl_same [OF rounding_round64]
  by (simp add: invariantFeatures_def sqdist_def js_div_def)

text \<open>
  Claim C4, amended. \<open>invariantFeatures\<close> returns a descriptor for every three points
  and raises nothing. The descriptor has a NaN component exactly when at least two of
  the three computed squared sides are zero, or at least two are infinite; three
  coincident points give (NaN, NaN).
\<close>

theorem invariantFeatures_nan_iff:
  assumes "rounding rnd"
  shows "((fst (invariantFeatures_fl rnd x1 x2 x3) = NaN
           \<or> snd (invariantFeatures_fl rnd x1 x2 x3) = NaN)
        = (2 \<le> count_list [sqdist_fl rnd x1 x2, sqdist_fl rnd x2 x3, sqdist_fl rnd x1 x3] (Fin 0)
           \<or> 2 \<le> count_list [sqdist_fl rnd x1 x2, sqdist_fl rnd x2 x3, sqdist_fl rnd x1 x3] PosInf))
       \<and> invariantFeatures_fl rnd x1 x1 x1 = (NaN, NaN)"
proof -
  let ?sides = "[sqdist_fl rnd x1 x2, sqdist_fl rnd x2 x3, sqdist_fl rnd x1 x3]"
  obtain s0 s1 s2 where s: "js_sort_by id ?sides = [s0, s1, s2]"
    and o: "\<not> js_less s1 s0" "\<not> js_less s2 s1"
    and ms: "mset [s0, s1, s2] = mset ?sides"
    by (rule js_sort3)
  have "set [s0, s1, s2] = set ?sides" using ms by (rule mset_eq_setD)
  then have "\<forall>v \<in> set [s0, s1, s2]. nonneg v"
    using nonneg_sqdist_fl [OF assms] by simp
  then have n: "nonneg s0" "nonneg s1" "nonneg s2" by simp_all
  have f: "invariantFeatures_fl rnd x1 x2 x3
      = (fl_sqrt rnd (fl_div rnd s2 s1), fl_sqrt rnd (fl_div rnd s1 s0))"
    unfolding invariantFeatures_fl_def s by simp
  have c0: "2 \<le> count_list ?sides (Fin 0) \<longleftrightarrow> s1 = Fin 0"
    unfolding count_list_mset [OF ms, symmetric] using n o by (rule middle_zero)
  have ci: "2 \<le> count_list ?sides PosInf \<longleftrightarrow> s1 = PosInf"
    unfolding count_list_mset [OF ms, symmetric] using n o by (rule middle_infinite)
  have "(fl_sqrt rnd (fl_div rnd s2 s1) = NaN \<or> fl_sqrt rnd (fl_div rnd s1 s0) = NaN)
      \<longleftrightarrow> (s1 = Fin 0 \<or> s1 = PosInf)"
  proof
    assume nan: "fl_sqrt rnd (fl_div rnd s2 s1) = NaN \<or> fl_sqrt rnd (fl_div rnd s1 s0) = NaN"
    show "s1 = Fin 0 \<or> s1 = PosInf"
    proof (cases s1)
      case (Fin y)
      show ?thesis
      proof (rule ccontr)
        assume "\<not> ?thesis"
        with Fin n(2) have y: "0 < y" by simp
        from descriptor_at_least_one [OF assms y n(1) n(3)] o nan
        show False unfolding Fin using at_least_one_not_NaN by blast
      qed
    qed (use n in simp_all)
  next
    assume "s1 = Fin 0 \<or> s1 = PosInf"
    with n(1) n(3) o show
      "fl_sqrt rnd (fl_div rnd s2 s1) = NaN \<or> fl_sqrt rnd (fl_div rnd s1 s0) = NaN"
      by (rule descriptor_NaN)
  qed
  then have "(fst (invariantFeatures_fl rnd x1 x2 x3) = NaN
        \<or> snd (invariantFeatures_fl rnd x1 x2 x3) = NaN)
      = (2 \<le> count_list ?sides (Fin 0) \<or> 2 \<le> count_list ?sides PosInf)"
    unfolding f c0 ci by simp
  then show ?thesis using invariantFeatures_fl_same [OF assms, of x1] by (rule conjI)
qed

theorem invariantFeatures_nan_iff_witness:
  "fst (invariantFeatures_fl round64 (0, 0) (4, 0) (0, 3)) \<noteq> NaN
   \<and> snd (invariantFeatures_fl round64 (0, 0) (4, 0) (0, 3)) \<noteq> NaN
   \<and> (fst (invariantFeatures_fl round64 (1, 2) (1, 2) (1, 2)) = NaN
       \<or> snd (invariantFeatures_fl round64 (1, 2) (1, 2) (1, 2)) = NaN)"
  using invariantFeatures_nan_iff [OF rounding_round64, of "(0, 0)" "(4, 0)" "(0, 3)"]
    invariantFeatures_nan_iff [OF rounding_round64, of "(1, 2)" "(1, 2)" "(1, 2)"]
  by (simp add: sqdist_fl_right sqdist_fl_same [OF rounding_round64])

subsection \<open>Exact arithmetic as an instance\<close>

lemma fl_sqrt_exact: "fl_sqrt Fin v = js_sqrt v"
  by (cases v) simp_all

lemma sqdist_fl_exact: "sqdist_fl Fin p q = Fin (sqdist p q)"
  by (simp add: sqdist_fl_def sqdist_def power2_eq_square)

lemma js_insert_exact: "js_insert id (Fin x) (map Fin ys) = map Fin (insort x ys)"
  by (induction ys) auto

lemma js_sort_by_exact: "js_sort_by id (map Fin xs) = map Fin (sort xs)"
  unfolding js_sort_by_def by (induction xs) (simp_all add: js_insert_exact [unfolded id_def])

lemma invariantFeatures_fl_exact:
  "invariantFeatures_fl Fin x1 x2 x3 = invariantFeatures x1 x2 x3"
proof -
  obtain s0 s1 s2 where s: "sort [sqdist x1 x2, sqdist x2 x3, sqdist x1 x3] = [s0, s1, s2]"
    by (rule sort3_shape)
  have "js_sort_by id (map Fin [sqdist x1 x2, sqdist x2 x3, sqdist x1 x3])
      = [Fin s0, Fin s1, Fin s2]"
    unfolding js_sort_by_exact s by simp
  then show ?thesis
    unfolding invariantFeatures_fl_def invariantFeatures_def s sqdist_fl_exact
    by (simp add: fl_sqrt_exact js_div_def)
qed

section \<open>Canonical vertex order\<close>

lemma mostCommon_xyyz:
  assumes "x \<noteq> y" "y \<noteq> z" "x \<noteq> z"
  shows "parseInt_entries (mostCommon [x, y, y, z]) = Some y"
  using assms by (auto simp: mostCommon_def)

lemma mostCommon_yzxy:
  assumes "x \<noteq> y" "y \<noteq> z" "x \<noteq> z"
  shows "parseInt_entries (mostCommon [y, z, x, y]) = Some y"
  using assms by (auto simp: mostCommon_def)

lemma canonical_swap:
  assumes "p \<noteq> q" "q \<noteq> r" "p \<noteq> r"
  shows "canonicalTriangle v u w p r q = canonicalTriangle u v w p q r"
  using assms by (auto simp: canonicalTriangle_def)

lemma canonical_rotate:
  assumes "p \<noteq> q" "q \<noteq> r" "p \<noteq> r"
  shows "canonicalTriangle v w u q r p = canonicalTriangle u v w p q r"
  using assms by (auto simp: canonicalTriangle_def)

lemma canonical_set:
  fixes p q r :: real
  assumes "p \<noteq> q" "q \<noteq> r" "p \<noteq> r" and "canonicalTriangle u v w p q r = (a, b, c)"
  shows "{a, b, c} = {u, v, w}"
proof -
  consider "p < q" "q < r" | "p < r" "r < q" | "q < p" "p < r"
    | "q < r" "r < p" | "r < p" "p < q" | "r < q" "q < p"
    using assms(1-3) by linarith
  then show ?thesis
  proof cases
    case 1 with assms(4) show ?thesis by (auto simp: canonicalTriangle_def)
  next
    case 2 with assms(4) show ?thesis by (auto simp: canonicalTriangle_def)
  next
    case 3 with assms(4) show ?thesis by (auto simp: canonicalTriangle_def)
  next
    case 4 with assms(4) show ?thesis by (auto simp: canonicalTriangle_def)
  next
    case 5 with assms(4) show ?thesis by (auto simp: canonicalTriangle_def)
  next
    case 6 with assms(4) show ?thesis by (auto simp: canonicalTriangle_def)
  qed
qed

lemma sqdist_fl_commute:
  assumes "rounding rnd"
  shows "sqdist_fl rnd p q = sqdist_fl rnd q p"
proof -
  have odd: "rnd (- x) = fl_neg (rnd x)" for x
    using assms unfolding rounding_def by blast
  have x: "rnd (fst p - fst q) = fl_neg (rnd (fst q - fst p))"
    using odd [of "fst q - fst p"] by simp
  have y: "rnd (snd p - snd q) = fl_neg (rnd (snd q - snd p))"
    using odd [of "snd q - snd p"] by simp
  show ?thesis unfolding sqdist_fl_def x y fl_sq_neg ..
qed

lemma sideLength_fl_commute:
  "rounding rnd \<Longrightarrow> sideLength_fl rnd p q = sideLength_fl rnd q p"
  by (simp add: sideLength_fl_def sqdist_fl_commute)

lemma arrange_fl_scalene:
  assumes r: "i1 < length sources" "i2 < length sources" "i3 < length sources"
    and d: "i1 \<noteq> i2" "i2 \<noteq> i3" "i1 \<noteq> i3"
    and l: "sideLength_fl rnd (sources ! i1) (sources ! i2) = Fin d12"
           "sideLength_fl rnd (sources ! i2) (sources ! i3) = Fin d23"
           "sideLength_fl rnd (sources ! i3) (sources ! i1) = Fin d31"
    and s: "d12 \<noteq> d23" "d23 \<noteq> d31" "d12 \<noteq> d31"
  shows "arrangeTriplet_fl rnd sources (i1, i2, i3) =
     (case canonicalTriangle i1 i2 i3 d12 d23 d31 of (a, b, c) \<Rightarrow> Inr (Some a, Some b, Some c))"
proof -
  have mc: "parseInt_entries (mostCommon [i1, i2, i2, i3]) = Some i2"
    "parseInt_entries (mostCommon [i2, i3, i1, i2]) = Some i2"
    "parseInt_entries (mostCommon [i2, i3, i3, i1]) = Some i3"
    "parseInt_entries (mostCommon [i3, i1, i2, i3]) = Some i3"
    "parseInt_entries (mostCommon [i3, i1, i1, i2]) = Some i1"
    "parseInt_entries (mostCommon [i1, i2, i3, i1]) = Some i1"
    using d by (simp_all add: mostCommon_xyyz mostCommon_yzxy)
  consider "d12 < d23" "d23 < d31" | "d12 < d31" "d31 < d23" | "d23 < d12" "d12 < d31"
    | "d23 < d31" "d31 < d12" | "d31 < d12" "d12 < d23" | "d31 < d23" "d23 < d12"
    using s by linarith
  then show ?thesis
  proof cases
    case 1 then show ?thesis using r
      by (simp add: arrangeTriplet_fl_def at_index_def l js_sort_by_def canonicalTriangle_def mc)
  next
    case 2 then show ?thesis using r
      by (simp add: arrangeTriplet_fl_def at_index_def l js_sort_by_def canonicalTriangle_def mc)
  next
    case 3 then show ?thesis using r
      by (simp add: arrangeTriplet_fl_def at_index_def l js_sort_by_def canonicalTriangle_def mc)
  next
    case 4 then show ?thesis using r
      by (simp add: arrangeTriplet_fl_def at_index_def l js_sort_by_def canonicalTriangle_def mc)
  next
    case 5 then show ?thesis using r
      by (simp add: arrangeTriplet_fl_def at_index_def l js_sort_by_def canonicalTriangle_def mc)
  next
    case 6 then show ?thesis using r
      by (simp add: arrangeTriplet_fl_def at_index_def l js_sort_by_def canonicalTriangle_def mc)
  qed
qed

lemma sideLength_fl_right:
  "sideLength_fl round64 (right_triangle ! 0) (right_triangle ! 1) = Fin 4"
  "sideLength_fl round64 (right_triangle ! 1) (right_triangle ! 2) = Fin 5"
  "sideLength_fl round64 (right_triangle ! 2) (right_triangle ! 0) = Fin 3"
  by (simp_all add: sideLength_fl_def sqdist_fl_right sqrt_9 sqrt_16 sqrt_25 round64_values)

lemma sideLength_fl_tied:
  "sideLength_fl round64 (0, 0) (6, 0) = Fin 6"
  "sideLength_fl round64 (6, 0) (3, 4) = Fin 5"
  "sideLength_fl round64 (3, 4) (0, 0) = Fin 5"
  "sideLength_fl round64 (0, 0) (3, 4) = Fin 5"
  "sideLength_fl round64 (3, 4) (6, 0) = Fin 5"
  "sideLength_fl round64 (6, 0) (0, 0) = Fin 6"
  by (simp_all add: sideLength_fl_def sqdist_fl_def round64_values round64_zero sqrt_25 sqrt_36)

lemma near_tie_lengths:
  assumes "round64 (- e) = Fin (- e)" and "round64 e = Fin e"
    and "round64 (e * e) = Fin (e * e)" and "round64 (1 + e * e) = Fin 1"
    and "round64 (e - 1) = Fin (e - 1)" and "round64 (1 - e) = Fin (1 - e)"
    and "round64 ((e - 1) * (e - 1)) = Fin m" and "round64 ((1 - e) * (1 - e)) = Fin m"
    and "round64 (1 + m) = Fin s" and "0 \<le> s" and "round64 (sqrt s) = Fin L"
  shows "sideLength_fl round64 (0, 0) (1, e) = Fin 1"
    and "sideLength_fl round64 (1, e) (0, 1) = Fin L"
    and "sideLength_fl round64 (0, 1) (0, 0) = Fin 1"
    and "sideLength_fl round64 (0, 0) (0, 1) = Fin 1"
    and "sideLength_fl round64 (0, 1) (1, e) = Fin L"
    and "sideLength_fl round64 (1, e) (0, 0) = Fin 1"
  using assms(10)
  by (simp_all add: sideLength_fl_def sqdist_fl_def assms(1-9,11) round64_zero round64_one not_less)

lemma near_tie_arrange:
  assumes "sideLength_fl round64 (0, 0) (1, e) = Fin 1"
    and "sideLength_fl round64 (1, e) (0, 1) = Fin L"
    and "sideLength_fl round64 (0, 1) (0, 0) = Fin 1"
    and "sideLength_fl round64 (0, 0) (0, 1) = Fin 1"
    and "sideLength_fl round64 (0, 1) (1, e) = Fin L"
    and "sideLength_fl round64 (1, e) (0, 0) = Fin 1"
    and "1 < L"
  shows "arrangeTriplet_fl round64 [(0, 0), (1, e), (0, 1)] (0, 1, 2)
           = Inr (Some 0, Some 2, Some 1)
       \<and> arrangeTriplet_fl round64 [(0, 0), (1, e), (0, 1)] (0, 2, 1)
           = Inr (Some 0, Some 1, Some 2)"
  using assms(7)
  by (simp add: arrangeTriplet_fl_def at_index_def assms(1-6) js_sort_by_def mostCommon_def)

lemma rounded_tie_arrange:
  "arrangeTriplet_fl round64 rounded_tie_triangle (0, 1, 2) = Inr (Some 0, Some 2, Some 1)
   \<and> arrangeTriplet_fl round64 rounded_tie_triangle (0, 2, 1) = Inr (Some 0, Some 1, Some 2)"
proof -
  obtain L where L: "round64 (sqrt (1 + (1 - 1 / 2 ^ 26))) = Fin L" and gt: "1 < L"
    using round64_long_sqrt by blast
  have "(0 :: real) \<le> 1 + (1 - 1 / 2 ^ 26)" by simp
  note l = near_tie_lengths [OF round64_neg_eps round64_eps round64_eps_sq round64_one_eps_sq
      round64_eps_minus_one round64_one_minus_eps round64_long_sq round64_long_sq_sym
      round64_long_sum this L]
  show ?thesis using l gt by (rule near_tie_arrange)
qed

text \<open>
  Claim C3, amended. For three distinct indices into the point set whose three
  computed side lengths are finite and pairwise different, all six orders of the
  indices give the same ordered triple, a rearrangement of the three indices.
\<close>

theorem arrangeTriplet_permutation_invariant:
  assumes rd: "rounding rnd"
    and r: "i1 < length sources" "i2 < length sources" "i3 < length sources"
    and d: "i1 \<noteq> i2" "i2 \<noteq> i3" "i1 \<noteq> i3"
    and l: "sideLength_fl rnd (sources ! i1) (sources ! i2) = Fin p"
           "sideLength_fl rnd (sources ! i2) (sources ! i3) = Fin q"
           "sideLength_fl rnd (sources ! i3) (sources ! i1) = Fin t"
    and ne: "p \<noteq> q" "q \<noteq> t" "p \<noteq> t"
  shows "\<exists>a b c. {a, b, c} = {i1, i2, i3}
          \<and> arrangeTriplet_fl rnd sources (i1, i2, i3) = Inr (Some a, Some b, Some c)
          \<and> arrangeTriplet_fl rnd sources (i1, i3, i2) = Inr (Some a, Some b, Some c)
          \<and> arrangeTriplet_fl rnd sources (i2, i1, i3) = Inr (Some a, Some b, Some c)
          \<and> arrangeTriplet_fl rnd sources (i2, i3, i1) = Inr (Some a, Some b, Some c)
          \<and> arrangeTriplet_fl rnd sources (i3, i1, i2) = Inr (Some a, Some b, Some c)
          \<and> arrangeTriplet_fl rnd sources (i3, i2, i1) = Inr (Some a, Some b, Some c)"
proof -
  have sym: "sideLength_fl rnd (sources ! i2) (sources ! i1) = Fin p"
    "sideLength_fl rnd (sources ! i3) (sources ! i2) = Fin q"
    "sideLength_fl rnd (sources ! i1) (sources ! i3) = Fin t"
    using l by (simp_all add: sideLength_fl_commute [OF rd])
  obtain a b c where abc: "canonicalTriangle i1 i2 i3 p q t = (a, b, c)"
    by (cases "canonicalTriangle i1 i2 i3 p q t") auto
  have ne2: "q \<noteq> t" "t \<noteq> p" "q \<noteq> p" and ne3: "t \<noteq> p" "p \<noteq> q" "t \<noteq> q"
    and ne4: "p \<noteq> t" "t \<noteq> q" "p \<noteq> q" and ne5: "t \<noteq> q" "q \<noteq> p" "t \<noteq> p"
    and d': "i2 \<noteq> i1" "i3 \<noteq> i2" "i3 \<noteq> i1"
    using ne d by simp_all
  have c231: "canonicalTriangle i2 i3 i1 q t p = (a, b, c)"
    unfolding canonical_rotate [OF ne] by (rule abc)
  have c312: "canonicalTriangle i3 i1 i2 t p q = (a, b, c)"
    unfolding canonical_rotate [OF ne2] by (rule c231)
  have c213: "canonicalTriangle i2 i1 i3 p t q = (a, b, c)"
    unfolding canonical_swap [OF ne] by (rule abc)
  have c132: "canonicalTriangle i1 i3 i2 t q p = (a, b, c)"
    unfolding canonical_rotate [OF ne4] by (rule c213)
  have c321: "canonicalTriangle i3 i2 i1 q p t = (a, b, c)"
    unfolding canonical_rotate [OF ne5] by (rule c132)
  have e123: "arrangeTriplet_fl rnd sources (i1, i2, i3) = Inr (Some a, Some b, Some c)"
    using arrange_fl_scalene [OF r d l ne] by (simp add: abc)
  have e231: "arrangeTriplet_fl rnd sources (i2, i3, i1) = Inr (Some a, Some b, Some c)"
    using arrange_fl_scalene [OF r(2,3,1) d(2) d'(3) d'(1) l(2,3,1) ne2]
    by (simp add: c231)
  have e312: "arrangeTriplet_fl rnd sources (i3, i1, i2) = Inr (Some a, Some b, Some c)"
    using arrange_fl_scalene [OF r(3,1,2) d'(3) d(1) d'(2) l(3,1,2) ne3]
    by (simp add: c312)
  have e213: "arrangeTriplet_fl rnd sources (i2, i1, i3) = Inr (Some a, Some b, Some c)"
    using arrange_fl_scalene [OF r(2,1,3) d'(1) d(3) d(2) sym(1) sym(3) sym(2) ne4]
    by (simp add: c213)
  have e132: "arrangeTriplet_fl rnd sources (i1, i3, i2) = Inr (Some a, Some b, Some c)"
    using arrange_fl_scalene [OF r(1,3,2) d(3) d'(2) d(1) sym(3) sym(2) sym(1) ne5]
    by (simp add: c132)
  have e321: "arrangeTriplet_fl rnd sources (i3, i2, i1) = Inr (Some a, Some b, Some c)"
    using arrange_fl_scalene [OF r(3,2,1) d'(2) d'(1) d'(3) sym(2) sym(1) sym(3) ne2(3) ne(3) ne(2)]
    by (simp add: c321)
  have "{a, b, c} = {i1, i2, i3}"
    using ne abc by (rule canonical_set)
  then show ?thesis using e123 e132 e213 e231 e312 e321 by blast
qed

theorem arrangeTriplet_permutation_invariant_witness:
  "sideLength_fl round64 (right_triangle ! 0) (right_triangle ! 1) = Fin 4
   \<and> sideLength_fl round64 (right_triangle ! 1) (right_triangle ! 2) = Fin 5
   \<and> sideLength_fl round64 (right_triangle ! 2) (right_triangle ! 0) = Fin 3
   \<and> (\<exists>a b c. arrangeTriplet_fl round64 right_triangle (0, 1, 2) = Inr (Some a, Some b, Some c)
     \<and> arrangeTriplet_fl round64 right_triangle (2, 1, 0) = Inr (Some a, Some b, Some c)
     \<and> arrangeTriplet_fl round64 right_triangle (1, 2, 0) = Inr (Some a, Some b, Some c))"
proof -
  have "\<exists>a b c. arrangeTriplet_fl round64 right_triangle (0, 1, 2) = Inr (Some a, Some b, Some c)
     \<and> arrangeTriplet_fl round64 right_triangle (2, 1, 0) = Inr (Some a, Some b, Some c)
     \<and> arrangeTriplet_fl round64 right_triangle (1, 2, 0) = Inr (Some a, Some b, Some c)"
    using arrangeTriplet_permutation_invariant [OF rounding_round64 _ _ _ _ _ _ sideLength_fl_right]
    by simp blast
  then show ?thesis using sideLength_fl_right by simp
qed

text \<open>
  Claim C3, as stated, fails where two computed side lengths are equal: the stable
  sort keeps tied sides in the order of the input, which a permutation changes. The
  triangle \<open>(0,0), (6,0), (3,4)\<close> with sides 6, 5, 5 is arranged differently from the
  index orders \<open>(0, 1, 2)\<close> and \<open>(0, 2, 1)\<close>. So is the triangle \<open>(0,0), (1, 2^-27), (0,1)\<close>,
  whose two sides at \<open>(0,0)\<close> have different squared lengths, \<open>1 + 2^-54\<close> and \<open>1\<close>, and
  the same computed length \<open>1\<close>; and so is the right isosceles triangle
  \<open>(0,0), (1,0), (0,1)\<close> in exact arithmetic.
\<close>

theorem arrangeTriplet_tie_counterexample:
  "arrangeTriplet_fl round64 tied_triangle (0, 1, 2) = Inr (Some 2, Some 0, Some 1)
   \<and> arrangeTriplet_fl round64 tied_triangle (0, 2, 1) = Inr (Some 2, Some 1, Some 0)
   \<and> sqdist (rounded_tie_triangle ! 0) (rounded_tie_triangle ! 1)
       \<noteq> sqdist (rounded_tie_triangle ! 2) (rounded_tie_triangle ! 0)
   \<and> arrangeTriplet_fl round64 rounded_tie_triangle (0, 1, 2) = Inr (Some 0, Some 2, Some 1)
   \<and> arrangeTriplet_fl round64 rounded_tie_triangle (0, 2, 1) = Inr (Some 0, Some 1, Some 2)
   \<and> arrangeTriplet isosceles_triangle (0, 1, 2) = Inr (Some 0, Some 2, Some 1)
   \<and> arrangeTriplet isosceles_triangle (0, 2, 1) = Inr (Some 0, Some 1, Some 2)"
proof -
  have "arrangeTriplet_fl round64 tied_triangle (0, 1, 2) = Inr (Some 2, Some 0, Some 1)
      \<and> arrangeTriplet_fl round64 tied_triangle (0, 2, 1) = Inr (Some 2, Some 1, Some 0)"
    by (simp add: arrangeTriplet_fl_def at_index_def sideLength_fl_tied js_sort_by_def
        mostCommon_def)
  moreover have "sqdist (rounded_tie_triangle ! 0) (rounded_tie_triangle ! 1)
      \<noteq> sqdist (rounded_tie_triangle ! 2) (rounded_tie_triangle ! 0)"
    by (simp add: sqdist_def)
  moreover have "arrangeTriplet isosceles_triangle (0, 1, 2) = Inr (Some 0, Some 2, Some 1)
      \<and> arrangeTriplet isosceles_triangle (0, 2, 1) = Inr (Some 0, Some 1, Some 2)"
    by (simp add: arrangeTriplet_def at_index_def sqdist_def mostCommon_def)
  ultimately show ?thesis using rounded_tie_arrange by blast
qed

subsection \<open>Exact arithmetic as an instance\<close>

lemma sideLength_fl_exact: "sideLength_fl Fin p q = Fin (sqrt (sqdist p q))"
  using sqdist_nonneg [of p q] by (simp add: sideLength_fl_def sqdist_fl_exact not_less)

lemma js_insert_key_map:
  "js_insert fst (Fin x, i) (map (\<lambda>(l, j). (Fin l, j)) ys)
     = map (\<lambda>(l, j). (Fin l, j)) (insort_key fst (x, i) ys)"
  by (induction ys) auto

lemma js_sort_by_key_exact:
  "js_sort_by fst (map (\<lambda>(l, j). (Fin l, j)) xs)
     = map (\<lambda>(l, j). (Fin l, j)) (sort_key fst xs)"
  unfolding js_sort_by_def
proof (induction xs)
  case Nil
  show ?case by simp
next
  case (Cons a xs)
  obtain x i where a: "a = (x, i)" by (cases a)
  show ?case using Cons.IH by (simp add: a js_insert_key_map)
qed

lemma arrangeTriplet_fl_exact:
  "arrangeTriplet_fl Fin sources tri = arrangeTriplet sources tri"
proof -
  have z: "zip [Fin a, Fin b, Fin c] [0, 1, 2 :: nat]
      = map (\<lambda>(l, j). (Fin l, j)) (zip [a, b, c] [0, 1, 2])" for a b c
    by simp
  have m: "map snd (map (\<lambda>(l, j). (Fin l, j)) ys) = map snd ys" for ys :: "(real \<times> nat) list"
    by (induction ys) auto
  have k: "map snd (js_sort_by fst (zip [Fin a, Fin b, Fin c] [0, 1, 2 :: nat]))
      = map snd (sort_key fst (zip [a, b, c] [0, 1, 2]))" for a b c
    unfolding z js_sort_by_key_exact m ..
  show ?thesis
    unfolding arrangeTriplet_fl_def arrangeTriplet_def sideLength_fl_exact Let_def k ..
qed

section \<open>Invariant generation\<close>

lemma emap_total:
  assumes "\<forall>x \<in> set xs. f x = Inr (g x)"
  shows "emap f xs = Inr (map g xs)"
  using assms by (induction xs) simp_all

lemma combinations_short: "length indx \<le> 2 \<Longrightarrow> combinations indx = []"
  by (simp add: combinations_def)

text \<open>
  Claim C9. For a point set with fewer than three points \<open>generateInvariants\<close> returns
  the empty invariant set and throws nothing, whatever spatial index it is given,
  as long as a query for \<open>k\<close> neighbours returns at most \<open>k\<close> indices.
\<close>

theorem generateInvariants_few_points:
  assumes "length sources < 3"
    and "\<forall>q k. length (knn sources q k) \<le> k"
  shows "generateInvariants knn sources = Inr ([], [])"
proof -
  have "anchorTriangles knn sources asrc = Inr []" for asrc
  proof -
    have "length (knn sources asrc (min (length sources) NUM_NEAREST_NEIGHBORS))
        \<le> min (length sources) NUM_NEAREST_NEIGHBORS"
      using assms(2) by blast
    then have "length (knn sources asrc (min (length sources) NUM_NEAREST_NEIGHBORS)) \<le> 2"
      using assms(1) by simp
    then show ?thesis
      by (simp add: anchorTriangles_def combinations_short)
  qed
  then have "emap (anchorTriangles knn sources) sources = Inr (map (\<lambda>_. []) sources)"
    by (intro emap_total) simp
  then have "candidateTriangles knn sources = Inr []"
    by (simp add: candidateTriangles_def)
  then show ?thesis
    by (simp add: generateInvariants_def uniqInd_def)
qed

theorem generateInvariants_few_points_witness:
  "generateInvariants knn_ref [(0, 0), (1, 1)] = Inr ([], [])
   \<and> generateInvariants knn_ref [] = Inr ([], [])"
  using generateInvariants_few_points [of "[(0, 0), (1, 1)]" knn_ref]
    generateInvariants_few_points [of "[]" knn_ref]
  by (simp add: knn_ref_def)

lemma desc_eq_iff: "desc_eq a b \<longleftrightarrow> a = b \<and> \<not> has_nan a"
  by (cases a, cases b, cases "fst a"; cases "snd a"; cases "fst b"; cases "snd b")
     (auto simp: desc_eq_def has_nan_def)

lemma uniqInd_Cons:
  "uniqInd (x # xs) =
     (if list_ex (\<lambda>item. desc_eq item x) xs then [] else [0]) @ map Suc (uniqInd xs)"
proof -
  have "[0 ..< Suc (length xs)] = 0 # map Suc [0 ..< length xs]"
    by (simp only: upt_conv_Cons [OF zero_less_Suc] map_Suc_upt)
  then have "[0 ..< length (x # xs)] = 0 # map Suc [0 ..< length xs]"
    by simp
  then show ?thesis
    by (simp add: uniqInd_def filter_map comp_def)
qed

lemma kept_Cons:
  "map (\<lambda>i. (x # xs) ! i) (uniqInd (x # xs)) =
     (if list_ex (\<lambda>item. desc_eq item x) xs then [] else [x]) @ map (\<lambda>i. xs ! i) (uniqInd xs)"
  by (simp add: uniqInd_Cons comp_def)



lemma uniqInd_bound: "i \<in> set (uniqInd invs) \<Longrightarrow> i < length invs"
  by (simp add: uniqInd_def)


lemma right_triangle_knn:
  "knn_ref right_triangle (0, 0)
     (min (length right_triangle) NUM_NEAREST_NEIGHBORS) = [0, 2, 1]"
  "knn_ref right_triangle (4, 0)
     (min (length right_triangle) NUM_NEAREST_NEIGHBORS) = [1, 0, 2]"
  "knn_ref right_triangle (0, 3)
     (min (length right_triangle) NUM_NEAREST_NEIGHBORS) = [2, 0, 1]"
  by (simp_all add: knn_ref_def sqdist_def upt_conv_Cons NUM_NEAREST_NEIGHBORS_def)

lemma combinations_three: "combinations [a, b, c] = [(a, b, c)]"
  by (simp add: combinations_def upt_conv_Cons)

lemma right_triangle_arrange:
  "arrangeTriplet right_triangle (0, 2, 1) = Inr (Some 0, Some 1, Some 2)"
  "arrangeTriplet right_triangle (1, 0, 2) = Inr (Some 0, Some 1, Some 2)"
  "arrangeTriplet right_triangle (2, 0, 1) = Inr (Some 0, Some 1, Some 2)"
  by (simp_all add: arrangeTriplet_def at_index_def sqdist_def mostCommon_def)

lemma right_triangle_features:
  "tripletFeatures right_triangle (Some 0, Some 1, Some 2)
     = Inr ((Fin (5 / 4), Fin (4 / 3)), (0, 1, 2))"
  by (simp add: tripletFeatures_def at_index_def sqdist_def invariantFeatures_def js_div_def
      real_sqrt_divide sqrt_9 sqrt_16 sqrt_25)

lemma right_triangle_anchor:
  "anchorTriangles knn_ref right_triangle (0, 0) = Inr [((Fin (5 / 4), Fin (4 / 3)), (0, 1, 2))]"
  "anchorTriangles knn_ref right_triangle (4, 0) = Inr [((Fin (5 / 4), Fin (4 / 3)), (0, 1, 2))]"
  "anchorTriangles knn_ref right_triangle (0, 3) = Inr [((Fin (5 / 4), Fin (4 / 3)), (0, 1, 2))]"
  unfolding anchorTriangles_def right_triangle_knn Let_def combinations_three
  by (simp_all del: One_nat_def add: right_triangle_arrange right_triangle_features)

lemma right_triangle_candidates:
  "candidateTriangles knn_ref right_triangle
     = Inr [((Fin (5 / 4), Fin (4 / 3)), (0, 1, 2)), ((Fin (5 / 4), Fin (4 / 3)), (0, 1, 2)),
            ((Fin (5 / 4), Fin (4 / 3)), (0, 1, 2))]"
  by (simp add: candidateTriangles_def right_triangle_anchor)

lemma uniqInd_same3: "\<not> has_nan d \<Longrightarrow> uniqInd [d, d, d] = [2]"
  by (simp add: uniqInd_def upt_conv_Cons desc_eq_iff) 

lemma right_triangle_generateInvariants:
  "generateInvariants knn_ref right_triangle = Inr ([(Fin (5 / 4), Fin (4 / 3))], [(0, 1, 2)])"
  unfolding generateInvariants_def right_triangle_candidates by (simp add: uniqInd_same3 has_nan_def)




section \<open>The sampling loop of ransac\<close>

lemma shuffle_from_mset:
  assumes "unit_draws rand" and "i < length xs"
  shows "mset (shuffle_from rand d i xs) = mset xs"
  using assms(2)
proof (induction i arbitrary: d xs)
  case 0
  then show ?case by simp
next
  case (Suc i)
  define j where "j = nat \<lfloor>rand d * (real (Suc i) + 1)\<rfloor>"
  have r: "0 \<le> rand d" "rand d < 1" using assms(1) by (simp_all add: unit_draws_def)
  have "rand d * (real (Suc i) + 1) < real (Suc i) + 1"
    using r by (simp add: mult_less_cancel_right1)
  then have "\<lfloor>rand d * (real (Suc i) + 1)\<rfloor> < int (Suc i) + 1"
    by (simp add: floor_less_iff)
  then have j: "j \<le> Suc i" unfolding j_def by linarith
  then have jl: "j < length xs" using Suc.prems by simp
  have sw: "mset (xs[Suc i := xs ! j, j := xs ! Suc i]) = mset xs"
    using mset_swap [OF jl Suc.prems] .
  have "i < length (xs[Suc i := xs ! j, j := xs ! Suc i])" using Suc.prems by simp
  from Suc.IH [OF this] sw show ?case
    by (simp add: j_def Let_def)
qed

lemma shuffle_mset:
  assumes "unit_draws rand"
  shows "mset (shuffle rand n) = mset [0 ..< n]"
proof (cases n)
  case 0
  then show ?thesis by (simp add: shuffle_def)
next
  case (Suc m)
  then show ?thesis
    unfolding shuffle_def using shuffle_from_mset [OF assms, of "n - 1" "[0 ..< n]" 0] by simp
qed

lemma shuffle_props:
  assumes "unit_draws rand"
  shows "length (shuffle rand n) = n" and "set (shuffle rand n) = {0 ..< n}"
    and "distinct (shuffle rand n)"
proof -
  note m = shuffle_mset [OF assms, of n]
  show "length (shuffle rand n) = n" using mset_eq_length [OF m] by simp
  show "set (shuffle rand n) = {0 ..< n}" using mset_eq_setD [OF m] by simp
  show "distinct (shuffle rand n)" using m by (metis distinct_upt mset_eq_imp_distinct_iff)
qed

lemma nth_filter_index:
  "map (\<lambda>i. xs ! i) (filter (\<lambda>i. P (xs ! i)) [0 ..< length xs]) = filter P xs"
proof -
  have "filter P xs = filter P (map (\<lambda>i. xs ! i) [0 ..< length xs])"
    by (simp add: map_nth)
  also have "\<dots> = map (\<lambda>i. xs ! i) (filter (\<lambda>i. P (xs ! i)) [0 ..< length xs])"
    by (simp add: filter_map comp_def)
  finally show ?thesis by simp
qed

lemma take1_drop: "i < length xs \<Longrightarrow> take 1 (drop i xs) = [xs ! i]"
  by (simp add: take_Suc_conv_app_nth)

lemma ransac_try_pointwise:
  assumes pm: "pointwise_model model data H err"
    and i: "i < length data"
    and len: "length allIdxs = length data"
    and rng: "set allIdxs \<subseteq> {0 ..< length data}"
  shows "ransac_try model data thresh minMatches allIdxs i =
     (if minMatches \<le> length (supporters err data thresh allIdxs i)
      then (case fit model (data ! (allIdxs ! i)
                  # map (\<lambda>j. data ! j) (supporters err data thresh allIdxs i)) of
              Inl e \<Rightarrow> Inl e
            | Inr goodFit \<Rightarrow> Inr (Some goodFit))
      else Inr None)"
proof -
  define c where "c = data ! (allIdxs ! i)"
  define testIdxs where "testIdxs = take i allIdxs @ drop (i + 1) allIdxs"
  define testPoints where "testPoints = map (\<lambda>i. data ! i) testIdxs"
  have ai: "allIdxs ! i < length data" using rng i len by (auto simp: subset_iff)
  then have cin: "c \<in> set data" by (simp add: c_def)
  have "set testIdxs \<subseteq> set allIdxs"
    unfolding testIdxs_def using set_take_subset [of i allIdxs] set_drop_subset [of "i + 1" allIdxs]
    by auto
  then have "set testIdxs \<subseteq> {0 ..< length data}" using rng by blast
  then have tp: "set testPoints \<subseteq> set data" by (auto simp: testPoints_def)
  have f: "fit model [c] = Inr (H c)"
    using pm cin by (simp add: pointwise_model_def)
  have g: "getError model testPoints (H c) = Inr (map (err c) testPoints)"
    using pm cin tp by (simp add: pointwise_model_def)
  have bel: "below (map (err c) testPoints) thresh = (\<lambda>k. k < length testIdxs \<and> err c (data ! (testIdxs ! k)) < thresh)"
    by (auto simp: below_def testPoints_def fun_eq_iff)
  have "filter (below (map (err c) testPoints) thresh) [0 ..< length testIdxs]
      = filter (\<lambda>k. err c (data ! (testIdxs ! k)) < thresh) [0 ..< length testIdxs]"
    unfolding bel by (rule filter_cong) simp_all
  then have alsoI: "map (\<lambda>i. testIdxs ! i) (filter (below (map (err c) testPoints) thresh) [0 ..< length testIdxs])
      = supporters err data thresh allIdxs i"
    using nth_filter_index [of testIdxs "\<lambda>j. err c (data ! j) < thresh"]
    by (simp add: supporters_def testIdxs_def c_def)
  have il: "i < length allIdxs" using i len by simp
  have m: "map (\<lambda>i. data ! i) (take 1 (drop i allIdxs)) = [c]"
    unfolding take1_drop [OF il] by (simp add: c_def)
  show ?thesis
    unfolding ransac_try_def Let_def m
    unfolding testIdxs_def [symmetric] testPoints_def [symmetric]
    by (simp add: f g alsoI c_def [symmetric])
qed

lemma ransac_search_pointwise:
  assumes pm: "pointwise_model model data H err"
    and len: "length allIdxs = length data"
    and rng: "set allIdxs \<subseteq> {0 ..< length data}"
  shows "ransac_search model data thresh minMatches allIdxs iterI =
     (case find (\<lambda>i. minMatches \<le> length (supporters err data thresh allIdxs i))
             [iterI ..< length data] of
        None \<Rightarrow> Inr None
      | Some i \<Rightarrow>
          (case fit model (data ! (allIdxs ! i)
                  # map (\<lambda>j. data ! j) (supporters err data thresh allIdxs i)) of
             Inl e \<Rightarrow> Inl e
           | Inr goodFit \<Rightarrow> Inr (Some goodFit)))"
  using assms
proof (induction model data thresh minMatches allIdxs iterI rule: ransac_search.induct)
  case (1 model data thresh minMatches allIdxs iterI)
  show ?case
  proof (cases "iterI < length data")
    case False
    then show ?thesis by (subst ransac_search.simps) simp
  next
    case True
    note tr = ransac_try_pointwise [OF "1.prems"(1) True "1.prems"(2,3), of thresh minMatches]
    have upt: "[iterI ..< length data] = iterI # [iterI + 1 ..< length data]"
      using True by (simp add: upt_conv_Cons)
    show ?thesis
    proof (cases "minMatches \<le> length (supporters err data thresh allIdxs iterI)")
      case acc: True
      show ?thesis
        by (subst ransac_search.simps, subst upt)
           (simp add: True tr acc split: sum.split)
    next
      case rej: False
      then have t: "ransac_try model data thresh minMatches allIdxs iterI = Inr None"
        using tr by simp
      have "ransac_search model data thresh minMatches allIdxs iterI
          = ransac_search model data thresh minMatches allIdxs (iterI + 1)"
        by (subst ransac_search.simps) (simp add: True t)
      also note "1.IH" [OF True t refl "1.prems"]
      finally show ?thesis
        by (subst upt) (simp add: rej)
    qed
  qed
qed

lemma nth_not_in_rest:
  assumes "distinct xs" and "i < length xs"
  shows "xs ! i \<notin> set (take i xs @ drop (Suc i) xs)"
proof -
  have "distinct (take i xs @ xs ! i # drop (Suc i) xs)"
    using assms by (simp add: id_take_nth_drop [symmetric])
  then show ?thesis by auto
qed

lemma supporters_count:
  assumes m: "mset allIdxs = mset [0 ..< n]" and i: "i < n"
  shows "length (supporters err data thresh allIdxs i) =
     length (filter (\<lambda>j. j \<noteq> allIdxs ! i \<and> err (data ! (allIdxs ! i)) (data ! j) < thresh)
               [0 ..< n])"
proof -
  define k where "k = allIdxs ! i"
  define rest where "rest = take i allIdxs @ drop (Suc i) allIdxs"
  let ?Q = "\<lambda>j. err (data ! k) (data ! j) < thresh"
  let ?Q' = "\<lambda>j. j \<noteq> k \<and> ?Q j"
  have len: "length allIdxs = n" using mset_eq_length [OF m] by simp
  have dist: "distinct allIdxs" using m by (metis distinct_upt mset_eq_imp_distinct_iff)
  have il: "i < length allIdxs" using i len by simp
  have kn: "k \<notin> set rest"
    unfolding k_def rest_def using nth_not_in_rest [OF dist il] .
  have e: "take i allIdxs @ k # drop (Suc i) allIdxs = allIdxs"
    unfolding k_def using id_take_nth_drop [OF il, symmetric] .
  have "mset allIdxs = mset (take i allIdxs @ k # drop (Suc i) allIdxs)"
    by (simp only: e)
  also have "\<dots> = add_mset k (mset rest)" by (simp add: rest_def)
  finally have ms: "mset [0 ..< n] = add_mset k (mset rest)" using m by simp
  have "filter ?Q rest = filter ?Q' rest"
    using kn by (intro filter_cong) auto
  then have "length (filter ?Q rest) = size (filter_mset ?Q' (mset rest))"
    by (simp only: mset_filter [symmetric] size_mset)
  also have "\<dots> = size (filter_mset ?Q' (add_mset k (mset rest)))" by simp
  also have "\<dots> = size (filter_mset ?Q' (mset [0 ..< n]))" by (simp only: ms)
  also have "\<dots> = length (filter ?Q' [0 ..< n])"
    by (simp only: mset_filter [symmetric] size_mset)
  finally show ?thesis by (simp add: supporters_def rest_def k_def)
qed

lemma shuffle_range:
  assumes "unit_draws rand"
  shows "set (shuffle rand n) \<subseteq> {0 ..< n}"
  using shuffle_props(2) [OF assms, of n] by simp

text \<open>
  Claim C1, amended. For a model whose methods return normally, the hypothesis
  fitted from the single candidate at a position of the shuffled order is accepted
  exactly when the number of its supporting inliers alone (the sample is not
  counted) reaches \<open>minMatches\<close>. The search stops at the first such position, and the
  transform is refit from the sample followed by its supporters and handed to the
  refinement; when there is no such position the call fails.
\<close>

theorem ransac_accepts_on_supporters:
  assumes "unit_draws rand" and "pointwise_model model data H err"
  shows "ransac rand data model thresh minMatches =
     (case find (\<lambda>i. minMatches
                     \<le> length (supporters err data thresh (shuffle rand (length data)) i))
             [0 ..< length data] of
        None \<Rightarrow> Inl MatchExhaustion
      | Some i \<Rightarrow>
          (case fit model (data ! (shuffle rand (length data) ! i)
                  # map (\<lambda>j. data ! j)
                      (supporters err data thresh (shuffle rand (length data)) i)) of
             Inl e \<Rightarrow> Inl e
           | Inr goodFit \<Rightarrow> ransac_refine model data thresh 3 goodFit []))"
  unfolding ransac_def Let_def
    ransac_search_pointwise [OF assms(2) shuffle_props(1) [OF assms(1)] shuffle_range [OF assms(1)]]
  by (simp split: option.split sum.split)

text \<open>
  Claim C7. When no candidate, taken as the sample, has \<open>minMatches\<close> supporters among
  the other candidates, \<open>ransac\<close> throws the exhaustion error, whatever the shuffle:
  no transform is returned.
\<close>

theorem ransac_exhaustion:
  assumes "unit_draws rand" and "pointwise_model model data H err"
    and few: "\<forall>k < length data.
       length (filter (\<lambda>j. j \<noteq> k \<and> err (data ! k) (data ! j) < thresh) [0 ..< length data])
         < minMatches"
  shows "ransac rand data model thresh minMatches = Inl MatchExhaustion"
proof -
  let ?idx = "shuffle rand (length data)"
  have "\<not> minMatches \<le> length (supporters err data thresh ?idx i)"
    if "i \<in> set [0 ..< length data]" for i
  proof -
    from that have i: "i < length data" by simp
    have "?idx ! i \<in> set ?idx"
      using i shuffle_props(1) [OF assms(1), of "length data"] by simp
    then have k: "?idx ! i < length data"
      using shuffle_props(2) [OF assms(1), of "length data"] by simp
    show ?thesis
      unfolding supporters_count [OF shuffle_mset [OF assms(1)] i]
      using few k by (simp add: not_le)
  qed
  then have "find (\<lambda>i. minMatches \<le> length (supporters err data thresh ?idx i))
      [0 ..< length data] = None"
    unfolding find_None_iff by blast
  then show ?thesis
    unfolding ransac_def Let_def
      ransac_search_pointwise [OF assms(2) shuffle_props(1) [OF assms(1)] shuffle_range [OF assms(1)]]
    by simp
qed

lemma unit_draws_zero: "unit_draws (\<lambda>k. 0)"
  by (simp add: unit_draws_def)

lemma shuffle_zero_3: "shuffle (\<lambda>k. 0) 3 = [1, 2, 0]"
  by (simp add: shuffle_def numeral_2_eq_2 upt_conv_Cons)

lemma upt_3: "[0 ..< 3] = [0, 1, 2]"
  by (simp add: upt_conv_Cons)

lemma shuffle_one: "shuffle rand 1 = [0]"
  by (simp add: shuffle_def)

lemma single_candidate_try:
  "ransac_try (MatchTransform ext_ref right_triangle right_triangle)
     [((0, 0), (1, 1), (2, 2))] 2 1 [0] 0 = Inr None"
  by (simp add: ransac_try_def MatchTransform_def MatchTransform_fit_def
      MatchTransform_getError_def flat_def at_index_def)

text \<open>
  Claim C1, as stated, fails: the test is \<open>alsoInliers.length >= minMatches\<close>, on the
  supporters without the sample. With a single candidate and \<open>minMatches = 1\<close> the
  sample and its (no) supporters count 1, which reaches \<open>minMatches\<close>, and yet the
  hypothesis is rejected and the call fails.
\<close>

theorem ransac_single_candidate_counterexample:
  "supporters (\<lambda>c c'. 0) [((0, 0), (1, 1), (2, 2)) :: candidate] 2 (shuffle (\<lambda>k. 0) 1) 0 = []
   \<and> (1 :: nat) \<le> Suc (length ([] :: nat list))
   \<and> ransac (\<lambda>k. 0) [((0, 0), (1, 1), (2, 2))]
        (MatchTransform ext_ref right_triangle right_triangle) 2 1
       = Inl MatchExhaustion"
proof -
  let ?M = "MatchTransform ext_ref right_triangle right_triangle"
  let ?D = "[((0, 0), (1, 1), (2, 2))] :: candidate list"
  have s1: "ransac_search ?M ?D 2 1 [0] 1 = Inr None"
    by (subst ransac_search.simps) simp
  have s0: "ransac_search ?M ?D 2 1 [0] 0 = Inr None"
    by (subst ransac_search.simps) (simp del: One_nat_def add: single_candidate_try s1)
  have len: "length ?D = 1" by simp
  have "ransac (\<lambda>k. 0) ?D ?M 2 1 = Inl MatchExhaustion"
    unfolding ransac_def len shuffle_one Let_def s0 by simp
  then show ?thesis by (simp del: One_nat_def add: supporters_def shuffle_one)
qed

section \<open>The correspondence list\<close>

lemma set_obj_set:
  "set (obj_set k v d) = insert (k, v) {kv \<in> set d. fst kv \<noteq> k}" if "sorted (map fst d)" "distinct (map fst d)"
  using that by (induction d) (force split: if_splits)+

lemma keys_obj_set: "fst ` set (obj_set k v d) = insert k (fst ` set d)"
proof (induction d)
  case Nil
  show ?case by simp
next
  case (Cons a d)
  obtain k' v' where a: "a = (k', v')" by (cases a)
  consider "k < k'" | "k = k'" | "k' < k" by linarith
  then show ?case
  proof cases
    case 1
    then show ?thesis by (simp add: a)
  next
    case 2
    then show ?thesis by (simp add: a)
  next
    case 3
    then have "obj_set k v (a # d) = a # obj_set k v d" by (simp add: a)
    then show ?thesis using Cons.IH by (simp add: insert_commute)
  qed
qed

lemma sorted_obj_set:
  "sorted (map fst d) \<Longrightarrow> distinct (map fst d)
     \<Longrightarrow> sorted (map fst (obj_set k v d)) \<and> distinct (map fst (obj_set k v d))"
proof (induction d)
  case Nil
  then show ?case by simp
next
  case (Cons a d)
  then show ?case
    using keys_obj_set [of k v d] by (cases a) (auto split: if_splits)
qed

lemma resolved_step:
  assumes res: "resolved r P d" and err: "err = r sI tI"
  shows "resolved r (insert (sI, tI) P)
     (case map_of d sI of
        None \<Rightarrow> obj_set sI (tI, err) d
      | Some prev \<Rightarrow> if err < snd prev then obj_set sI (tI, err) d else d)"
proof -
  from res have so: "sorted (map fst d)" and di: "distinct (map fst d)"
    and keys: "fst ` set d = fst ` P"
    and ent: "\<And>s t e. (s, t, e) \<in> set d \<Longrightarrow>
        (s, t) \<in> P \<and> e = r s t \<and> (\<forall>t'. (s, t') \<in> P \<longrightarrow> e \<le> r s t')"
    unfolding resolved_def by auto
  have upd: "resolved r (insert (sI, tI) P) (obj_set sI (tI, err) d)"
    if low: "\<And>t'. (sI, t') \<in> P \<Longrightarrow> err \<le> r sI t'"
  proof -
    have st: "set (obj_set sI (tI, err) d) = insert (sI, tI, err) {kv \<in> set d. fst kv \<noteq> sI}"
      using set_obj_set [OF so di] .
    have "fst ` set (obj_set sI (tI, err) d) = fst ` insert (sI, tI) P"
      using keys by (simp add: keys_obj_set)
    moreover have "(s, t) \<in> insert (sI, tI) P \<and> e = r s t
        \<and> (\<forall>t'. (s, t') \<in> insert (sI, tI) P \<longrightarrow> e \<le> r s t')"
      if "(s, t, e) \<in> set (obj_set sI (tI, err) d)" for s t e
    proof (cases "(s, t, e) = (sI, tI, err)")
      case True
      then show ?thesis using low err by auto
    next
      case False
      with that st have "(s, t, e) \<in> set d" "s \<noteq> sI" by auto
      then show ?thesis using ent [of s t e] by auto
    qed
    ultimately show ?thesis
      unfolding resolved_def using sorted_obj_set [OF so di, of sI "(tI, err)"] by auto
  qed
  show ?thesis
  proof (cases "map_of d sI")
    case None
    then have "sI \<notin> fst ` P" using keys by (simp add: map_of_eq_None_iff)
    then have "\<And>t'. (sI, t') \<in> P \<Longrightarrow> err \<le> r sI t'" by force
    from upd [OF this] show ?thesis by (simp add: None)
  next
    case (Some prev)
    obtain tp ep where prev: "prev = (tp, ep)" by (cases prev)
    have mem: "(sI, tp, ep) \<in> set d" using Some prev by (auto dest: map_of_SomeD)
    note p = ent [OF mem]
    show ?thesis
    proof (cases "err < ep")
      case True
      then have "\<And>t'. (sI, t') \<in> P \<Longrightarrow> err \<le> r sI t'" using p by force
      from upd [OF this] show ?thesis by (simp add: Some prev True)
    next
      case False
      have k: "fst ` set d = fst ` insert (sI, tI) P"
        using keys p by force
      have "(s, t) \<in> insert (sI, tI) P \<and> e = r s t
          \<and> (\<forall>t'. (s, t') \<in> insert (sI, tI) P \<longrightarrow> e \<le> r s t')"
        if "(s, t, e) \<in> set d" for s t e
      proof (cases "s = sI")
        case ne: False
        then show ?thesis using ent [OF that] by auto
      next
        case True
        with that have "map_of d sI = Some (t, e)"
          using map_of_is_SomeI [OF di] by blast
        moreover have "map_of d sI = Some (tp, ep)"
          using map_of_is_SomeI [OF di mem] .
        ultimately have "(t, e) = (tp, ep)" by simp
        then show ?thesis using True p False err by auto
      qed
      then show ?thesis
        unfolding resolved_def using so di k by (auto simp: Some prev False)
    qed
  qed
qed

lemma at_index_Inr: "at_index xs i = Inr x \<longleftrightarrow> i < length xs \<and> x = xs ! i"
  by (auto simp: at_index_def)

lemma resolveLoop_resolved:
  assumes "resolveLoop ext S T bestT pairs d = Inr d'"
    and "resolved (\<lambda>s t. nudged_residual ext bestT (S ! s) (T ! t)) P d"
  shows "resolved (\<lambda>s t. nudged_residual ext bestT (S ! s) (T ! t)) (P \<union> set pairs) d'"
  using assms
proof (induction pairs arbitrary: d P)
  case Nil
  then show ?case by simp
next
  case (Cons p pairs)
  obtain sI tI where p: "p = (sI, tI)" by (cases p)
  from Cons.prems(1) obtain sv tv where sv: "at_index S sI = Inr sv" and tv: "at_index T tI = Inr tv"
    by (auto simp: p split: sum.splits)
  then have v: "sv = S ! sI" "tv = T ! tI" by (simp_all add: at_index_Inr)
  define d1 where "d1 = (case map_of d sI of
        None \<Rightarrow> obj_set sI (tI, nudged_residual ext bestT (S ! sI) (T ! tI)) d
      | Some prev \<Rightarrow> if nudged_residual ext bestT (S ! sI) (T ! tI) < snd prev
          then obj_set sI (tI, nudged_residual ext bestT (S ! sI) (T ! tI)) d else d)"
  have loop: "resolveLoop ext S T bestT pairs d1 = Inr d'"
    using Cons.prems(1) by (simp add: p sv tv v d1_def Let_def)
  have "resolved (\<lambda>s t. nudged_residual ext bestT (S ! s) (T ! t)) (insert (sI, tI) P) d1"
    unfolding d1_def by (rule resolved_step [OF Cons.prems(2)]) simp
  from Cons.IH [OF loop this] show ?case by (simp add: p)
qed

lemma set_fold_unique:
  "set (fold (\<lambda>m acc. if m \<in> set acc then acc else acc @ [m]) xs acc) = set acc \<union> set xs"
  by (induction xs arbitrary: acc) auto

lemma set_uniquePairs: "set (uniquePairs pairs) = set pairs"
  by (simp add: uniquePairs_def set_fold_unique)

lemma ransac_refine_range:
  assumes "ransac_refine model data thresh k betterFit idxs = Inr (bestT, inlierInd)"
    and "\<forall>i \<in> set idxs. i < length data"
  shows "\<forall>i \<in> set inlierInd. i < length data"
  using assms
proof (induction k arbitrary: betterFit idxs)
  case 0
  then show ?case by simp
next
  case (Suc k)
  from Suc.prems(1) obtain testErr where te: "getError model data betterFit = Inr testErr"
    by (cases "getError model data betterFit") simp_all
  define idxs' where "idxs' = filter (below testErr thresh) [0 ..< length data]"
  from Suc.prems(1) te obtain newFit where
    nf: "fit model (map (\<lambda>i. data ! i) idxs') = Inr newFit"
    by (cases "fit model (map (\<lambda>i. data ! i) idxs')") (simp_all add: idxs'_def Let_def)
  have r: "ransac_refine model data thresh k newFit idxs' = Inr (bestT, inlierInd)"
    using Suc.prems(1) te nf by (simp add: idxs'_def Let_def)
  have "\<forall>i \<in> set idxs'. i < length data" by (simp add: idxs'_def)
  with r show ?case by (rule Suc.IH)
qed

lemma findTransform_estimate_range:
  assumes "findTransform_estimate ext S T matches = Inr (bestT, inlierInd)"
  shows "\<forall>i \<in> set inlierInd. i < length matches"
proof (cases "(length S = 3 \<or> length T = 3) \<and> length matches = 1")
  case True
  then show ?thesis using assms
    by (auto simp: findTransform_estimate_def Let_def split: sum.splits)
next
  case False
  then have r: "ransac (math_random ext) matches (MatchTransform ext S T) PIXEL_TOL
      (minMatchesOf (length matches)) = Inr (bestT, inlierInd)"
    using assms unfolding findTransform_estimate_def Let_def by (simp only: if_False)
  then obtain goodFit where
    "ransac_refine (MatchTransform ext S T) matches PIXEL_TOL 3 goodFit [] = Inr (bestT, inlierInd)"
    by (auto simp: ransac_def Let_def split: sum.splits option.splits)
  then show ?thesis by (rule ransac_refine_range) simp
qed

lemma flat_below:
  assumes "\<forall>c \<in> set data. candidate_below n m c" and "(s, t) \<in> set (flat data)"
  shows "s < n \<and> t < m"
proof -
  from assms(2) obtain c where c: "c \<in> set data" "(s, t) \<in> set (case c of (p, q, r) \<Rightarrow> [p, q, r])"
    by (auto simp: flat_def)
  obtain s1 t1 s2 t2 s3 t3 where "c = ((s1, t1), (s2, t2), (s3, t3))"
    by (metis prod.exhaust)
  then show ?thesis using assms(1) c by (auto simp: candidate_below_def)
qed

lemma resolveLoop_total:
  assumes "\<forall>(s, t) \<in> set pairs. s < length S \<and> t < length T"
  shows "\<exists>d'. resolveLoop ext S T bestT pairs d = Inr d'"
  using assms
proof (induction pairs arbitrary: d)
  case Nil
  then show ?case by simp
next
  case (Cons p pairs)
  obtain sI tI where p: "p = (sI, tI)" by (cases p)
  with Cons.prems have r: "sI < length S" "tI < length T"
    and rest: "\<forall>(s, t) \<in> set pairs. s < length S \<and> t < length T" by auto
  show ?case
    using Cons.IH [OF rest] r by (simp add: p at_index_def Let_def)
qed

lemma correspondences_total:
  assumes "\<forall>c \<in> set matches. candidate_below (length S) (length T) c"
    and "\<forall>i \<in> set inlierInd. i < length matches"
  shows "\<exists>corr. findTransform_correspondences ext S T matches bestT inlierInd = Inr corr"
proof -
  have "\<forall>c \<in> set (map (\<lambda>i. matches ! i) inlierInd). candidate_below (length S) (length T) c"
    using assms by auto
  then have "\<forall>(s, t) \<in> set (uniquePairs (flat (map (\<lambda>i. matches ! i) inlierInd))).
      s < length S \<and> t < length T"
    unfolding set_uniquePairs using flat_below by blast
  from resolveLoop_total [OF this, of ext bestT "[]"] obtain d' where
    "resolveLoop ext S T bestT (uniquePairs (flat (map (\<lambda>i. matches ! i) inlierInd))) [] = Inr d'"
    by blast
  then show ?thesis by (simp add: findTransform_correspondences_def Let_def)
qed

lemma conflicting_correspondences:
  "findTransform_correspondences ext_ref right_triangle right_triangle
     [((0, 0), (1, 1), (2, 2)), ((0, 1), (1, 0), (2, 2))] (0, 0) [0, 1]
   = Inr [(0, 0), (1, 1), (2, 2)]"
  by (simp add: findTransform_correspondences_def flat_def uniquePairs_def at_index_def
      ext_ref_def residual_ref_def sqdist_def)

text \<open>
  Claim C6. When the candidates index into the two control point sets and the inlier
  indices into the candidate list, the resolution of conflicts returns a
  correspondence list and raises nothing; the list has each source index at most once,
  its source indices are those of the flattened inlier pairs, and the pair kept for a
  source index is one of its inlier pairs whose residual under the final transform is
  lowest. The candidates and inlier indices that \<open>findTransform\<close> passes to this step
  are of this kind (\<open>findTransform_matches_range\<close>, \<open>findTransform_estimate_range\<close>).
\<close>

theorem correspondences_unique_lowest:
  assumes "\<forall>c \<in> set matches. candidate_below (length S) (length T) c"
    and "\<forall>i \<in> set inlierInd. i < length matches"
  shows "\<exists>corr. findTransform_correspondences ext S T matches bestT inlierInd = Inr corr
       \<and> distinct (map fst corr)
       \<and> fst ` set corr = fst ` set (flat (map (\<lambda>i. matches ! i) inlierInd))
       \<and> (\<forall>(s, t) \<in> set corr.
            (s, t) \<in> set (flat (map (\<lambda>i. matches ! i) inlierInd))
          \<and> (\<forall>t'. (s, t') \<in> set (flat (map (\<lambda>i. matches ! i) inlierInd))
                \<longrightarrow> nudged_residual ext bestT (S ! s) (T ! t)
                      \<le> nudged_residual ext bestT (S ! s) (T ! t')))"
proof -
  let ?P = "set (flat (map (\<lambda>i. matches ! i) inlierInd))"
  let ?r = "\<lambda>s t. nudged_residual ext bestT (S ! s) (T ! t)"
  from correspondences_total [OF assms, of ext bestT] obtain corr where
    c: "findTransform_correspondences ext S T matches bestT inlierInd = Inr corr"
    by blast
  then obtain inlDict where
    loop: "resolveLoop ext S T bestT (uniquePairs (flat (map (\<lambda>i. matches ! i) inlierInd))) [] = Inr inlDict"
    and corr: "corr = map (\<lambda>(sI, (tI, e)). (sI, tI)) inlDict"
    by (auto simp: findTransform_correspondences_def Let_def split: sum.splits)
  have "resolved ?r {} []" by (simp add: resolved_def)
  from resolveLoop_resolved [OF loop this] have res: "resolved ?r ?P inlDict"
    by (simp add: set_uniquePairs)
  have mf: "map fst corr = map fst inlDict"
    by (simp add: corr comp_def case_prod_beta)
  have d: "distinct (map fst corr)" using res by (simp add: mf resolved_def)
  have k: "fst ` set corr = fst ` ?P"
    using res mf unfolding resolved_def by (metis set_map)
  have e: "(s, t) \<in> ?P \<and> (\<forall>t'. (s, t') \<in> ?P \<longrightarrow> ?r s t \<le> ?r s t')"
    if "(s, t) \<in> set corr" for s t
  proof -
    from that obtain e where "(s, t, e) \<in> set inlDict" by (auto simp: corr)
    with res show ?thesis unfolding resolved_def by blast
  qed
  have "distinct (map fst corr) \<and> fst ` set corr = fst ` ?P
      \<and> (\<forall>(s, t) \<in> set corr. (s, t) \<in> ?P \<and> (\<forall>t'. (s, t') \<in> ?P \<longrightarrow> ?r s t \<le> ?r s t'))"
    using d k e by blast
  with c show ?thesis by blast
qed

theorem correspondences_unique_lowest_witness:
  "findTransform_correspondences ext_ref right_triangle right_triangle
     [((0, 0), (1, 1), (2, 2)), ((0, 1), (1, 0), (2, 2))] (0, 0) [0, 1]
   = Inr [(0, 0), (1, 1), (2, 2)]
   \<and> distinct (map fst [(0 :: nat, 0 :: nat), (1, 1), (2, 2)])
   \<and> nudged_residual ext_ref (0, 0) (right_triangle ! 0) (right_triangle ! 0)
       \<le> nudged_residual ext_ref (0, 0) (right_triangle ! 0) (right_triangle ! 1)"
proof -
  let ?m = "[((0, 0), (1, 1), (2, 2)), ((0, 1), (1, 0), (2, 2))] :: candidate list"
  have h1: "\<forall>c \<in> set ?m. candidate_below (length right_triangle) (length right_triangle) c"
    by (simp add: candidate_below_def)
  have h2: "\<forall>i \<in> set [0, 1 :: nat]. i < length ?m" by simp
  note w = correspondences_unique_lowest
    [OF h1 h2, of ext_ref "(0, 0)", unfolded conflicting_correspondences]
  have "(0, 0) \<in> set [(0 :: nat, 0 :: nat), (1, 1), (2, 2)]" by simp
  moreover have "(0, 1) \<in> set (flat (map (\<lambda>i. ?m ! i) [0, 1]))"
    by (simp add: flat_def)
  ultimately show ?thesis using w conflicting_correspondences by blast
qed

section \<open>The pipeline of findTransform\<close>

lemma emap_Inr_set:
  assumes "emap f xs = Inr ys" and "y \<in> set ys"
  obtains x where "x \<in> set xs" "f x = Inr y"
proof -
  have "\<exists>x \<in> set xs. f x = Inr y"
    using assms
  proof (induction xs arbitrary: ys)
    case Nil
    then show ?case by simp
  next
    case (Cons a xs)
    from Cons.prems(1) obtain b bs where b: "f a = Inr b" and bs: "emap f xs = Inr bs"
      and ys: "ys = b # bs"
      by (auto split: sum.splits)
    show ?case
    proof (cases "y = b")
      case True
      then show ?thesis using b by simp
    next
      case False
      then have "y \<in> set bs" using Cons.prems(2) ys by simp
      from Cons.IH [OF bs this] show ?thesis by auto
    qed
  qed
  then show thesis using that by blast
qed

lemma tripletFeatures_range:
  assumes "tripletFeatures sources t = Inr (d, tri)"
  shows "triple_below (length sources) tri"
proof -
  obtain oa ob oc where t: "t = (oa, ob, oc)" by (cases t) auto
  from assms obtain a b c where abc: "oa = Some a" "ob = Some b" "oc = Some c"
    by (cases oa; cases ob; cases oc) (simp_all add: tripletFeatures_def t)
  have "a < length sources \<and> b < length sources \<and> c < length sources \<and> tri = (a, b, c)"
    using assms unfolding tripletFeatures_def t abc
    by (simp add: at_index_def split: if_splits)
  then show ?thesis by (simp add: triple_below_def)
qed

lemma anchorTriangles_range:
  assumes "anchorTriangles knn sources asrc = Inr l" and "(d, tri) \<in> set l"
  shows "triple_below (length sources) tri"
proof -
  define arranged where
    "arranged = emap (arrangeTriplet sources)
       (combinations (knn sources asrc (min (length sources) NUM_NEAREST_NEIGHBORS)))"
  have a: "anchorTriangles knn sources asrc =
      (case arranged of Inl e \<Rightarrow> Inl e | Inr ts \<Rightarrow> emap (tripletFeatures sources) ts)"
    unfolding anchorTriangles_def arranged_def Let_def ..
  obtain ts where "emap (tripletFeatures sources) ts = Inr l"
    using assms(1) unfolding a by (cases arranged) simp_all
  from emap_Inr_set [OF this assms(2)] obtain t where "tripletFeatures sources t = Inr (d, tri)"
    by blast
  then show ?thesis by (rule tripletFeatures_range)
qed

lemma candidateTriangles_range:
  assumes "candidateTriangles knn sources = Inr cands" and "(d, tri) \<in> set cands"
  shows "triple_below (length sources) tri"
proof -
  obtain per_anchor where e: "emap (anchorTriangles knn sources) sources = Inr per_anchor"
    and c: "cands = concat per_anchor"
    using assms(1) unfolding candidateTriangles_def
    by (cases "emap (anchorTriangles knn sources) sources") auto
  from assms(2) c obtain l where l: "l \<in> set per_anchor" "(d, tri) \<in> set l" by auto
  from emap_Inr_set [OF e l(1)] obtain asrc where "anchorTriangles knn sources asrc = Inr l"
    by blast
  from anchorTriangles_range [OF this l(2)] show ?thesis .
qed

lemma generateInvariants_range:
  assumes "generateInvariants knn sources = Inr (invUniq, triangVrtxUniq)"
    and "tri \<in> set triangVrtxUniq"
  shows "triple_below (length sources) tri"
proof -
  obtain cands where c: "candidateTriangles knn sources = Inr cands"
    and t: "triangVrtxUniq = map (\<lambda>i. map snd cands ! i) (uniqInd (map fst cands))"
    using assms(1) unfolding generateInvariants_def Let_def
    by (cases "candidateTriangles knn sources") auto
  from assms(2) t obtain i where i: "i \<in> set (uniqInd (map fst cands))" "tri = map snd cands ! i"
    by auto
  from uniqInd_bound [OF i(1)] have il: "i < length cands" by simp
  then have "(fst (cands ! i), tri) \<in> set cands" using i(2) by (simp add: nth_mem)
  from candidateTriangles_range [OF c this] show ?thesis .
qed

lemma pairUp_below:
  "triple_below n t1 \<Longrightarrow> triple_below m t2 \<Longrightarrow> candidate_below n m (pairUp t1 t2)"
  by (auto simp: triple_below_def candidate_below_def pairUp_def split: prod.splits)

lemma findTransform_matches_range:
  assumes "findTransform_matches ext S T = Inr matches" and "cand \<in> set matches"
  shows "candidate_below (length S) (length T) cand"
proof -
  obtain sInv sAst where gs: "generateInvariants (kdtree_knn ext) S = Inr (sInv, sAst)"
    using assms(1)
    by (cases "generateInvariants (kdtree_knn ext) S") (auto simp: findTransform_matches_def)
  obtain tInv tAst where gt: "generateInvariants (kdtree_knn ext) T = Inr (tInv, tAst)"
    using assms(1)
    by (cases "generateInvariants (kdtree_knn ext) T") (auto simp: findTransform_matches_def gs)
  define step where "step = (\<lambda>i. emap (\<lambda>t2Idx. case at_index tAst t2Idx of Inl e \<Rightarrow> Inl e
                                | Inr t2 \<Rightarrow> Inr (pairUp (sAst ! i) t2))
                     (map (\<lambda>sourceInv. kdtree_rnn ext tInv sourceInv 0.1) sInv ! i))"
  have fm: "findTransform_matches ext S T =
      (case emap step [0 ..< length sAst] of Inl e \<Rightarrow> Inl e | Inr per \<Rightarrow> Inr (concat per))"
    unfolding findTransform_matches_def gs gt step_def by (simp add: Let_def)
  obtain per where e0: "emap step [0 ..< length sAst] = Inr per" and m: "matches = concat per"
    using assms(1) unfolding fm by (cases "emap step [0 ..< length sAst]") auto
  note e = e0 [unfolded step_def]
  from assms(2) m obtain l where l: "l \<in> set per" "cand \<in> set l" by auto
  from emap_Inr_set [OF e l(1)] obtain i where i: "i \<in> set [0 ..< length sAst]"
    and ei: "emap (\<lambda>t2Idx. case at_index tAst t2Idx of Inl e \<Rightarrow> Inl e
                                | Inr t2 \<Rightarrow> Inr (pairUp (sAst ! i) t2))
                     (map (\<lambda>sourceInv. kdtree_rnn ext tInv sourceInv 0.1) sInv ! i) = Inr l"
    by blast
  from emap_Inr_set [OF ei l(2)] obtain t2Idx where
    "(case at_index tAst t2Idx of Inl e \<Rightarrow> Inl e | Inr t2 \<Rightarrow> Inr (pairUp (sAst ! i) t2)) = Inr cand"
    by blast
  then have t2: "t2Idx < length tAst" and c: "cand = pairUp (sAst ! i) (tAst ! t2Idx)"
    by (auto simp: at_index_def split: if_splits)
  have "triple_below (length S) (sAst ! i)"
    using generateInvariants_range [OF gs] i by simp
  moreover have "triple_below (length T) (tAst ! t2Idx)"
    using generateInvariants_range [OF gt] t2 by simp
  ultimately show ?thesis unfolding c by (rule pairUp_below)
qed

lemma MatchTransform_fit_total:
  assumes "\<forall>c \<in> set data. candidate_below (length S) (length T) c"
  shows "MatchTransform_fit ext S T data =
     Inr (nudged_estimate ext (map (\<lambda>(s, t). S ! s) (flat data)) (map (\<lambda>(s, t). T ! t) (flat data)))"
proof -
  have s: "emap (\<lambda>(s, t). at_index S s) (flat data) = Inr (map (\<lambda>(s, t). S ! s) (flat data))"
    using flat_below [OF assms] by (intro emap_total) (auto simp: at_index_def)
  have t: "emap (\<lambda>(s, t). at_index T t) (flat data) = Inr (map (\<lambda>(s, t). T ! t) (flat data))"
    using flat_below [OF assms] by (intro emap_total) (auto simp: at_index_def)
  show ?thesis by (simp add: MatchTransform_fit_def s t)
qed

text \<open>
  Claim C2, amended. When the candidate list has exactly one entry and one of the two
  control point sets has exactly three points, \<open>findTransform\<close> fits the transform
  on that candidate, takes it as the only inlier without calling \<open>ransac\<close>, and
  returns normally.
\<close>

theorem findTransform_direct_fit:
  assumes "controlPoints source m = Some S" and "controlPoints target m = Some T"
    and "3 \<le> length S" and "3 \<le> length T"
    and "findTransform_matches ext S T = Inr [cand]"
    and "length S = 3 \<or> length T = 3"
  shows "\<exists>bestT corr.
           MatchTransform_fit ext S T [cand] = Inr bestT
         \<and> findTransform_estimate ext S T [cand] = Inr (bestT, [0])
         \<and> findTransform_correspondences ext S T [cand] bestT [0] = Inr corr
         \<and> findTransform ext source target m
             = Inr (bestT, map (\<lambda>(i, j). S ! i) corr, map (\<lambda>(i, j). T ! j) corr)"
proof -
  have below: "\<forall>c \<in> set [cand]. candidate_below (length S) (length T) c"
    using findTransform_matches_range [OF assms(5)] by simp
  define bestT where "bestT = nudged_estimate ext (map (\<lambda>(s, t). S ! s) (flat [cand]))
      (map (\<lambda>(s, t). T ! t) (flat [cand]))"
  have f: "MatchTransform_fit ext S T [cand] = Inr bestT"
    unfolding bestT_def by (rule MatchTransform_fit_total [OF below])
  have e: "findTransform_estimate ext S T [cand] = Inr (bestT, [0])"
    using assms(6) by (simp add: findTransform_estimate_def MatchTransform_def f Let_def)
  obtain corr where c: "findTransform_correspondences ext S T [cand] bestT [0] = Inr corr"
    using correspondences_total [OF below, of "[0]" ext bestT] by auto
  have "findTransform ext source target m
      = Inr (bestT, map (\<lambda>(i, j). S ! i) corr, map (\<lambda>(i, j). T ! j) corr)"
    using assms(3,4) by (simp add: findTransform_def assms(1,2,5) e c)
  then show ?thesis using f e c by blast
qed

lemma right_triangle_matches:
  "findTransform_matches ext_ref right_triangle right_triangle
     = Inr [((0, 0), (1, 1), (2, 2))]"
proof -
  have k: "kdtree_knn ext_ref = knn_ref" by (simp add: ext_ref_def)
  have r: "kdtree_rnn ext_ref [(Fin (5 / 4), Fin (4 / 3))] (Fin (5 / 4), Fin (4 / 3)) 0.1 = [0]"
    by (simp add: ext_ref_def rnn_ref_def within_radius_def)
  show ?thesis
    unfolding findTransform_matches_def k right_triangle_generateInvariants
    by (simp add: r Let_def at_index_def pairUp_def)
qed

lemma right_triangle_fit:
  "MatchTransform_fit ext_ref right_triangle right_triangle
     [((0, 0), (1, 1), (2, 2))] = Inr (0, 0)"
  by (simp add: MatchTransform_fit_def flat_def at_index_def ext_ref_def estimate_ref_def)

lemma right_triangle_correspondences:
  "findTransform_correspondences ext_ref right_triangle right_triangle
     [((0, 0), (1, 1), (2, 2))] (0, 0) [0] = Inr [(0, 0), (1, 1), (2, 2)]"
  by (simp add: findTransform_correspondences_def flat_def uniquePairs_def at_index_def
      ext_ref_def residual_ref_def sqdist_def)

theorem findTransform_direct_fit_witness:
  "findTransform ext_ref (Coordinates right_triangle) (Coordinates right_triangle) 50
     = Inr ((0, 0), right_triangle, right_triangle)"
proof -
  have cp: "controlPoints (Coordinates right_triangle) 50 = Some right_triangle"
    by (simp add: controlPoints_def)
  have l: "3 \<le> length right_triangle"
    "length right_triangle = 3 \<or> length right_triangle = 3"
    by simp_all
  from findTransform_direct_fit [OF cp cp l(1) l(1) right_triangle_matches l(2)]
  show ?thesis
    unfolding right_triangle_fit by (auto simp del: One_nat_def simp: right_triangle_correspondences)
qed

lemma ransac_singleton:
  assumes f: "fit model [c] = Inr h" and g: "getError model [] h = Inr errs"
    and m: "0 < minMatches"
  shows "ransac rand [c] model thresh minMatches = Inl MatchExhaustion"
proof -
  have tr: "ransac_try model [c] thresh minMatches [0] 0 = Inr None"
    using m by (simp add: ransac_try_def f g)
  have s1: "ransac_search model [c] thresh minMatches [0] (0 + 1) = Inr None"
    by (subst ransac_search.simps) simp
  have s0: "ransac_search model [c] thresh minMatches [0] 0 = Inr None"
    by (subst ransac_search.simps) (simp only: tr s1, simp)
  have len: "length [c] = 1" by simp
  show ?thesis
    unfolding ransac_def len shuffle_one Let_def s0 by simp
qed

lemma minMatchesOf_1: "minMatchesOf 1 = 1"
  by (simp add: minMatchesOf_def MIN_MATCHES_FRACTION_def)

lemma single_candidate_exhaustion:
  assumes "findTransform_matches ext S T = Inr [cand]"
    and "length S \<noteq> 3" and "length T \<noteq> 3"
  shows "findTransform_estimate ext S T [cand] = Inl MatchExhaustion"
proof -
  have below: "\<forall>c \<in> set [cand]. candidate_below (length S) (length T) c"
    using findTransform_matches_range [OF assms(1)] by simp
  have f: "fit (MatchTransform ext S T) [cand] =
      Inr (nudged_estimate ext (map (\<lambda>(s, t). S ! s) (flat [cand]))
            (map (\<lambda>(s, t). T ! t) (flat [cand])))"
    using MatchTransform_fit_total [OF below] by (simp add: MatchTransform_def)
  have g: "getError (MatchTransform ext S T) [] h = Inr []" for h
    by (simp add: MatchTransform_def MatchTransform_getError_def)
  have len: "length [cand] = 1" by simp
  show ?thesis
    unfolding findTransform_estimate_def Let_def len minMatchesOf_1
    using assms(2,3) ransac_singleton [OF f g, of 1] by simp
qed

lemma combinations_four: "combinations [a, b, c, d] = [(a, b, c), (a, b, d), (a, c, d), (b, c, d)]"
  by (simp add: combinations_def upt_conv_Cons)

lemma square_knn:
  "knn_ref unit_square (0, 0)
     (min (length unit_square) NUM_NEAREST_NEIGHBORS) = [0, 1, 3, 2]"
  "knn_ref unit_square (1, 0)
     (min (length unit_square) NUM_NEAREST_NEIGHBORS) = [1, 0, 2, 3]"
  "knn_ref unit_square (1, 1)
     (min (length unit_square) NUM_NEAREST_NEIGHBORS) = [2, 1, 3, 0]"
  "knn_ref unit_square (0, 1)
     (min (length unit_square) NUM_NEAREST_NEIGHBORS) = [3, 0, 2, 1]"
  by (simp_all add: knn_ref_def sqdist_def upt_conv_Cons NUM_NEAREST_NEIGHBORS_def)

lemma square_anchor:
  "anchorTriangles knn_ref unit_square (0, 0) =
     Inr [((Fin (sqrt 2), Fin 1), 0, 3, 1), ((Fin (sqrt 2), Fin 1), 1, 2, 0),
          ((Fin (sqrt 2), Fin 1), 3, 2, 0), ((Fin (sqrt 2), Fin 1), 2, 1, 3)]"
  "anchorTriangles knn_ref unit_square (1, 0) =
     Inr [((Fin (sqrt 2), Fin 1), 1, 2, 0), ((Fin (sqrt 2), Fin 1), 0, 3, 1),
          ((Fin (sqrt 2), Fin 1), 2, 3, 1), ((Fin (sqrt 2), Fin 1), 3, 0, 2)]"
  "anchorTriangles knn_ref unit_square (1, 1) =
     Inr [((Fin (sqrt 2), Fin 1), 2, 3, 1), ((Fin (sqrt 2), Fin 1), 1, 0, 2),
          ((Fin (sqrt 2), Fin 1), 3, 0, 2), ((Fin (sqrt 2), Fin 1), 0, 1, 3)]"
  "anchorTriangles knn_ref unit_square (0, 1) =
     Inr [((Fin (sqrt 2), Fin 1), 3, 2, 0), ((Fin (sqrt 2), Fin 1), 0, 1, 3),
          ((Fin (sqrt 2), Fin 1), 2, 1, 3), ((Fin (sqrt 2), Fin 1), 1, 0, 2)]"
  unfolding anchorTriangles_def square_knn Let_def combinations_four
  by (simp_all add: arrangeTriplet_def at_index_def sqdist_def mostCommon_def
      tripletFeatures_def invariantFeatures_def js_div_def)

lemma square_candidates:
  "candidateTriangles knn_ref unit_square =
     Inr [((Fin (sqrt 2), Fin 1), 0, 3, 1), ((Fin (sqrt 2), Fin 1), 1, 2, 0),
          ((Fin (sqrt 2), Fin 1), 3, 2, 0), ((Fin (sqrt 2), Fin 1), 2, 1, 3),
          ((Fin (sqrt 2), Fin 1), 1, 2, 0), ((Fin (sqrt 2), Fin 1), 0, 3, 1),
          ((Fin (sqrt 2), Fin 1), 2, 3, 1), ((Fin (sqrt 2), Fin 1), 3, 0, 2),
          ((Fin (sqrt 2), Fin 1), 2, 3, 1), ((Fin (sqrt 2), Fin 1), 1, 0, 2),
          ((Fin (sqrt 2), Fin 1), 3, 0, 2), ((Fin (sqrt 2), Fin 1), 0, 1, 3),
          ((Fin (sqrt 2), Fin 1), 3, 2, 0), ((Fin (sqrt 2), Fin 1), 0, 1, 3),
          ((Fin (sqrt 2), Fin 1), 2, 1, 3), ((Fin (sqrt 2), Fin 1), 1, 0, 2)]"
  unfolding candidateTriangles_def by (simp add: square_anchor)

lemma uniqInd_replicate: "\<not> has_nan d \<Longrightarrow> uniqInd (replicate (Suc n) d) = [n]"
proof (induction n)
  case 0
  then show ?case by (simp add: uniqInd_def)
next
  case (Suc n)
  have "uniqInd (replicate (Suc (Suc n)) d) = uniqInd (d # replicate (Suc n) d)" by simp
  also have "\<dots> = [Suc n]"
    unfolding uniqInd_Cons using Suc by (simp add: desc_eq_iff)
  finally show ?case .
qed

lemma square_generateInvariants:
  "generateInvariants knn_ref unit_square =
     Inr ([(Fin (sqrt 2), Fin 1)], [(1, 0, 2)])"
proof -
  have r: "map fst [((Fin (sqrt 2), Fin 1), 0 :: nat, 3 :: nat, 1 :: nat), ((Fin (sqrt 2), Fin 1), 1, 2, 0),
          ((Fin (sqrt 2), Fin 1), 3, 2, 0), ((Fin (sqrt 2), Fin 1), 2, 1, 3),
          ((Fin (sqrt 2), Fin 1), 1, 2, 0), ((Fin (sqrt 2), Fin 1), 0, 3, 1),
          ((Fin (sqrt 2), Fin 1), 2, 3, 1), ((Fin (sqrt 2), Fin 1), 3, 0, 2),
          ((Fin (sqrt 2), Fin 1), 2, 3, 1), ((Fin (sqrt 2), Fin 1), 1, 0, 2),
          ((Fin (sqrt 2), Fin 1), 3, 0, 2), ((Fin (sqrt 2), Fin 1), 0, 1, 3),
          ((Fin (sqrt 2), Fin 1), 3, 2, 0), ((Fin (sqrt 2), Fin 1), 0, 1, 3),
          ((Fin (sqrt 2), Fin 1), 2, 1, 3), ((Fin (sqrt 2), Fin 1), 1, 0, 2)]
      = replicate (Suc 15) (Fin (sqrt 2), Fin 1)"
    by (simp add: eval_nat_numeral)
  have u: "uniqInd (replicate (Suc 15) (Fin (sqrt 2), Fin 1)) = [15]"
    by (rule uniqInd_replicate) (simp add: has_nan_def)
  show ?thesis
    unfolding generateInvariants_def square_candidates sum.case Let_def r u
    by (simp add: eval_nat_numeral)
qed

lemma square_matches:
  "findTransform_matches ext_ref unit_square unit_square
     = Inr [((1, 1), (0, 0), (2, 2))]"
proof -
  have k: "kdtree_knn ext_ref = knn_ref" by (simp add: ext_ref_def)
  have r: "kdtree_rnn ext_ref [(Fin (sqrt 2), Fin 1)] (Fin (sqrt 2), Fin 1) 0.1 = [0]"
    by (simp add: ext_ref_def rnn_ref_def within_radius_def)
  show ?thesis
    unfolding findTransform_matches_def k square_generateInvariants
    by (simp add: r Let_def at_index_def pairUp_def)
qed

text \<open>
  Claim C2, as stated, fails: the shortcut is taken only when one of the two control
  point sets has exactly three points. The four corners of a square give sixteen
  candidate triangles with the one descriptor \<open>(sqrt 2, 1)\<close>, of which the last is
  kept; a square matched against itself therefore has exactly one candidate, both
  point sets have four points, \<open>ransac\<close> is called and fails with exhaustion.
\<close>

theorem findTransform_single_candidate_counterexample:
  "findTransform_matches ext_ref unit_square unit_square
     = Inr [((1, 1), (0, 0), (2, 2))]
   \<and> findTransform ext_ref (Coordinates unit_square)
        (Coordinates unit_square) 50
     = Inl MatchExhaustion"
proof -
  have "findTransform_estimate ext_ref unit_square
      unit_square [((1, 1), (0, 0), (2, 2))] = Inl MatchExhaustion"
    by (rule single_candidate_exhaustion [OF square_matches]) simp_all
  then show ?thesis
    by (simp add: findTransform_def controlPoints_def square_matches)
qed

section \<open>Truncation of the inputs\<close>

lemma controlPoints_Coordinates:
  "src \<noteq> [] \<Longrightarrow> controlPoints (Coordinates src) m = Some (take m src)"
  by (cases src) (simp_all add: controlPoints_def)

lemma findTransform_depends_on_prefix:
  assumes "src \<noteq> []" "tgt \<noteq> []" "src' \<noteq> []" "tgt' \<noteq> []"
    and "take m src' = take m src" "take m tgt' = take m tgt"
  shows "findTransform ext (Coordinates src') (Coordinates tgt') m
       = findTransform ext (Coordinates src) (Coordinates tgt) m"
  using assms by (simp add: findTransform_def controlPoints_Coordinates)

text \<open>
  Claim C10. For coordinate lists with more than \<open>maxControlPoints\<close> entries, the
  control points are the first \<open>maxControlPoints\<close> entries; the cut comes before the
  test for fewer than three points (so a limit below 3 always fails that test); and
  the result is the result for the cut lists, the same for all inputs that agree on
  their first \<open>maxControlPoints\<close> entries.
\<close>

theorem findTransform_truncates:
  assumes "m < length src" and "m < length tgt"
  shows "controlPoints (Coordinates src) m = Some (take m src)
       \<and> controlPoints (Coordinates tgt) m = Some (take m tgt)
       \<and> findTransform ext (Coordinates src) (Coordinates tgt) m =
           (if m < 3 then Inl InsufficientSource
            else findTransform ext (Coordinates (take m src)) (Coordinates (take m tgt)) m)
       \<and> (\<forall>src' tgt'. m < length src' \<and> m < length tgt'
             \<and> take m src' = take m src \<and> take m tgt' = take m tgt
            \<longrightarrow> findTransform ext (Coordinates src') (Coordinates tgt') m
                = findTransform ext (Coordinates src) (Coordinates tgt) m)"
proof -
  have ne: "src \<noteq> []" "tgt \<noteq> []" using assms by auto
  have cp: "controlPoints (Coordinates src) m = Some (take m src)"
    "controlPoints (Coordinates tgt) m = Some (take m tgt)"
    using ne by (simp_all add: controlPoints_Coordinates)
  have small: "findTransform ext (Coordinates src) (Coordinates tgt) m = Inl InsufficientSource"
    if "m < 3"
    using that assms by (simp add: findTransform_def cp)
  have big: "findTransform ext (Coordinates src) (Coordinates tgt) m
      = findTransform ext (Coordinates (take m src)) (Coordinates (take m tgt)) m"
    if "\<not> m < 3"
  proof -
    from that ne have "take m src \<noteq> []" "take m tgt \<noteq> []" by auto
    then show ?thesis
      using ne by (intro findTransform_depends_on_prefix [symmetric]) simp_all
  qed
  have pre: "findTransform ext (Coordinates src') (Coordinates tgt') m
                = findTransform ext (Coordinates src) (Coordinates tgt) m"
    if "m < length src'" "m < length tgt'" "take m src' = take m src" "take m tgt' = take m tgt"
    for src' tgt'
  proof -
    from that have "src' \<noteq> []" "tgt' \<noteq> []" by auto
    then show ?thesis using ne that by (intro findTransform_depends_on_prefix) simp_all
  qed
  show ?thesis using cp small big pre by auto
qed

lemma right_triangle_estimate:
  "findTransform_estimate ext_ref right_triangle right_triangle
     [((0, 0), (1, 1), (2, 2))] = Inr ((0, 0), [0])"
  by (simp del: One_nat_def add: findTransform_estimate_def MatchTransform_def right_triangle_fit)

lemma right_triangle_findTransform:
  assumes "3 \<le> m"
  shows "findTransform ext_ref (Coordinates right_triangle)
      (Coordinates right_triangle) m
     = Inr ((0, 0), right_triangle, right_triangle)"
proof -
  have cp: "controlPoints (Coordinates right_triangle) m = Some right_triangle"
    using assms by (simp add: controlPoints_def)
  show ?thesis
    unfolding findTransform_def cp option.case right_triangle_matches sum.case right_triangle_estimate prod.case
    by (simp del: One_nat_def add: right_triangle_correspondences)
qed

theorem findTransform_truncates_witness:
  "findTransform ext_ref (Coordinates [(0, 0), (4, 0), (0, 3), (9, 9)])
      (Coordinates [(0, 0), (4, 0), (0, 3), (7, 7)]) 3
     = Inr ((0, 0), right_triangle, right_triangle)
   \<and> findTransform ext_ref (Coordinates [(0, 0), (4, 0), (0, 3), (9, 9)])
      (Coordinates [(0, 0), (4, 0), (0, 3), (7, 7)]) 2
     = Inl InsufficientSource"
  using findTransform_truncates [of 3 "[(0, 0), (4, 0), (0, 3), (9, 9)]"
      "[(0, 0), (4, 0), (0, 3), (7, 7)]" ext_ref]
    findTransform_truncates [of 2 "[(0, 0), (4, 0), (0, 3), (9, 9)]"
      "[(0, 0), (4, 0), (0, 3), (7, 7)]" ext_ref]
  by (simp add: right_triangle_findTransform)

section \<open>The estimator on the transform model\<close>

lemma triangleError_below:
  assumes "candidate_below (length S) (length T) c"
  shows "triangleError ext S T approxT c = Inr (triangleResidual ext S T approxT c)"
proof -
  obtain s1 t1 s2 t2 s3 t3 where c: "c = ((s1, t1), (s2, t2), (s3, t3))"
    by (metis prod.exhaust)
  show ?thesis
    using assms unfolding c
    by (simp add: triangleError_def triangleResidual_def candidate_below_def at_index_def)
qed

lemma MatchTransform_getError_total:
  assumes "\<forall>c \<in> set cs. candidate_below (length S) (length T) c"
  shows "getError (MatchTransform ext S T) cs h = Inr (map (triangleResidual ext S T h) cs)"
proof -
  have "emap (triangleError ext S T h) cs = Inr (map (triangleResidual ext S T h) cs)"
    using assms by (intro emap_total) (auto simp: triangleError_below)
  then show ?thesis by (simp add: MatchTransform_def MatchTransform_getError_def)
qed

lemma MatchTransform_pointwise:
  assumes "\<forall>c \<in> set data. candidate_below (length S) (length T) c"
  shows "pointwise_model (MatchTransform ext S T) data (sampleFit ext S T)
     (\<lambda>c. triangleResidual ext S T (sampleFit ext S T c))"
proof -
  have f: "fit (MatchTransform ext S T) [c] = Inr (sampleFit ext S T c)" if "c \<in> set data" for c
  proof -
    from that assms have "\<forall>c' \<in> set [c]. candidate_below (length S) (length T) c'" by simp
    from MatchTransform_fit_total [OF this] show ?thesis
      by (simp add: MatchTransform_def sampleFit_def)
  qed
  have g: "getError (MatchTransform ext S T) cs h = Inr (map (triangleResidual ext S T h) cs)"
    if "set cs \<subseteq> set data" for cs h
  proof -
    have "emap (triangleError ext S T h) cs = Inr (map (triangleResidual ext S T h) cs)"
      using that assms by (intro emap_total) (auto simp: triangleError_below)
    then show ?thesis by (simp add: MatchTransform_def MatchTransform_getError_def)
  qed
  show ?thesis unfolding pointwise_model_def using f g by blast
qed

lemma sampleFit_identity:
  "sampleFit ext_ref right_triangle right_triangle ((0, 0), (1, 1), (2, 2)) = (0, 0)"
  by (simp add: sampleFit_def flat_def ext_ref_def estimate_ref_def)

lemma sampleFit_rotated:
  "sampleFit ext_ref right_triangle right_triangle ((0, 1), (1, 2), (2, 0)) = (4, 0)"
  by (simp add: sampleFit_def flat_def ext_ref_def estimate_ref_def)

lemma sample_residuals:
  "triangleResidual ext_ref right_triangle right_triangle (0, 0)
     ((0, 0), (1, 1), (2, 2)) = 0"
  "triangleResidual ext_ref right_triangle right_triangle (0, 0)
     ((0, 1), (1, 2), (2, 0)) = 5"
  "triangleResidual ext_ref right_triangle right_triangle (4, 0)
     ((0, 0), (1, 1), (2, 2)) = 4"
  by (simp_all add: triangleResidual_def ext_ref_def residual_ref_def sqdist_def
      sqrt_9 sqrt_16 sqrt_25)

lemma sqrt_less_2: "sqrt x < 2 \<longleftrightarrow> x < 4"
  using real_sqrt_less_iff [of x 4] by simp

lemma sample_supporters:
  "supporters (\<lambda>c. triangleResidual ext_ref right_triangle right_triangle
        (sampleFit ext_ref right_triangle right_triangle c))
     [((0, 0), (1, 1), (2, 2)), ((0, 1), (1, 2), (2, 0)), ((0, 0), (1, 1), (2, 2))] 2 [1, 2, 0] 0 = []"
  "supporters (\<lambda>c. triangleResidual ext_ref right_triangle right_triangle
        (sampleFit ext_ref right_triangle right_triangle c))
     [((0, 0), (1, 1), (2, 2)), ((0, 1), (1, 2), (2, 0)), ((0, 0), (1, 1), (2, 2))] 2 [1, 2, 0] 1 = [0]"
  by (simp_all add: supporters_def sampleFit_identity [unfolded One_nat_def]
      sampleFit_rotated [unfolded One_nat_def] sample_residuals [unfolded One_nat_def])

lemma sample_pointwise:
  "pointwise_model (MatchTransform ext_ref right_triangle right_triangle)
     [((0, 0), (1, 1), (2, 2)), ((0, 1), (1, 2), (2, 0)), ((0, 0), (1, 1), (2, 2))]
     (sampleFit ext_ref right_triangle right_triangle)
     (\<lambda>c. triangleResidual ext_ref right_triangle right_triangle
        (sampleFit ext_ref right_triangle right_triangle c))"
  by (rule MatchTransform_pointwise) (simp add: candidate_below_def)

lemma sample_find:
  "find (\<lambda>i. 1 \<le> length (supporters
       (\<lambda>c. triangleResidual ext_ref right_triangle right_triangle
          (sampleFit ext_ref right_triangle right_triangle c))
       [((0, 0), (1, 1), (2, 2)), ((0, 1), (1, 2), (2, 0)), ((0, 0), (1, 1), (2, 2))] 2 [1, 2, 0] i))
     [0 ..< 3] = Some 1"
  unfolding upt_3 by (simp add: sample_supporters [unfolded One_nat_def])

lemma sample_goodFit:
  "fit (MatchTransform ext_ref right_triangle right_triangle)
     ([((0, 0), (1, 1), (2, 2)), ((0, 1), (1, 2), (2, 0)), ((0, 0), (1, 1), (2, 2))] ! ([1, 2, 0] ! 1)
      # map (\<lambda>j. [((0, 0), (1, 1), (2, 2)), ((0, 1), (1, 2), (2, 0)), ((0, 0), (1, 1), (2, 2))] ! j) [0])
   = Inr (0, 0)"
  by (simp add: MatchTransform_def MatchTransform_fit_def flat_def at_index_def ext_ref_def
      estimate_ref_def)

lemma sample_refine_step:
  "ransac_refine (MatchTransform ext_ref right_triangle right_triangle)
     [((0, 0), (1, 1), (2, 2)), ((0, 1), (1, 2), (2, 0)), ((0, 0), (1, 1), (2, 2))] 2 (Suc k) (0, 0) ix
   = ransac_refine (MatchTransform ext_ref right_triangle right_triangle)
     [((0, 0), (1, 1), (2, 2)), ((0, 1), (1, 2), (2, 0)), ((0, 0), (1, 1), (2, 2))] 2 k (0, 0) [0, 2]"
proof -
  let ?D = "[((0, 0), (1, 1), (2, 2)), ((0, 1), (1, 2), (2, 0)), ((0, 0), (1, 1), (2, 2))] :: candidate list"
  let ?P = "right_triangle :: point list"
  have g: "getError (MatchTransform ext_ref ?P ?P) ?D (0, 0) = Inr [0, 5, 0]"
    using MatchTransform_getError_total [of ?D ?P ?P ext_ref "(0, 0)"]
    by (simp add: candidate_below_def sample_residuals [unfolded One_nat_def])
  have len: "length ?D = 3" by simp
  have b: "filter (below [0, 5, 0] 2) [0 ..< 3] = [0, 2]"
    unfolding upt_3 by (simp add: below_def)
  have f: "fit (MatchTransform ext_ref ?P ?P) (map (\<lambda>i. ?D ! i) [0, 2]) = Inr (0, 0)"
    by (simp add: MatchTransform_def MatchTransform_fit_def flat_def at_index_def ext_ref_def
        estimate_ref_def)
  show ?thesis
    unfolding ransac_refine.simps g sum.case len b Let_def f ..
qed

theorem ransac_accepts_on_supporters_witness:
  "ransac (\<lambda>k. 0)
     [((0, 0), (1, 1), (2, 2)), ((0, 1), (1, 2), (2, 0)), ((0, 0), (1, 1), (2, 2))]
     (MatchTransform ext_ref right_triangle right_triangle) 2 1
   = Inr ((0, 0), [0, 2])"
proof -
  let ?D = "[((0, 0), (1, 1), (2, 2)), ((0, 1), (1, 2), (2, 0)), ((0, 0), (1, 1), (2, 2))] :: candidate list"
  have len: "length ?D = 3" by simp
  have r: "ransac_refine (MatchTransform ext_ref right_triangle right_triangle)
      ?D 2 3 (0, 0) [] = Inr ((0, 0), [0, 2])"
    unfolding numeral_3_eq_3 sample_refine_step by simp
  show ?thesis
    using ransac_accepts_on_supporters [OF unit_draws_zero sample_pointwise, of 2 1]
    unfolding len shuffle_zero_3 sample_find option.case sample_supporters sample_goodFit
      sum.case r .
qed

lemma upt_2: "[0 ..< 2] = [0, 1]"
  by (simp add: upt_conv_Cons)

theorem ransac_exhaustion_witness:
  "ransac (\<lambda>k. 0) [((0, 0), (1, 1), (2, 2)), ((0, 1), (1, 2), (2, 0))]
     (MatchTransform ext_ref right_triangle right_triangle) 2 1
   = Inl MatchExhaustion"
proof -
  let ?D = "[((0, 0), (1, 1), (2, 2)), ((0, 1), (1, 2), (2, 0))] :: candidate list"
  let ?P = "right_triangle :: point list"
  let ?err = "\<lambda>c. triangleResidual ext_ref ?P ?P (sampleFit ext_ref ?P ?P c)"
  have pm: "pointwise_model (MatchTransform ext_ref ?P ?P) ?D (sampleFit ext_ref ?P ?P) ?err"
    by (rule MatchTransform_pointwise) (simp add: candidate_below_def)
  have len: "length ?D = 2" by simp
  have "length (filter (\<lambda>j. j \<noteq> k \<and> ?err (?D ! k) (?D ! j) < 2) [0, 1]) < 1"
    if "k \<in> {0, 1}" for k
    using that
    by (auto simp: sampleFit_identity [unfolded One_nat_def] sampleFit_rotated [unfolded One_nat_def]
        sample_residuals [unfolded One_nat_def])
  moreover have "k \<in> {0, 1}" if "k < 2" for k :: nat
    using that by auto
  ultimately have few: "\<forall>k < length ?D.
      length (filter (\<lambda>j. j \<noteq> k \<and> ?err (?D ! k) (?D ! j) < 2) [0 ..< length ?D]) < 1"
    unfolding len upt_2 by blast
  show ?thesis
    using ransac_exhaustion [OF unit_draws_zero pm few] .
qed

end
